theory Spec2Isabelle
  imports Complex_Main
begin

section \<open>Board model (src/constants.ts types, src/services/goLogic.ts lines 1-33)\<close>

text \<open>
  \<^verbatim>\<open>Player = 'black' | 'white'\<close>. A board is a JavaScript array of rows
  (\<^verbatim>\<open>(Player | null)[][]\<close>), indexed \<^verbatim>\<open>board[y][x]\<close>. A slot holds a stone
  or \<^verbatim>\<open>null\<close>; reading an index outside a row (or a hole left by a write past
  the end of a row) yields \<^verbatim>\<open>undefined\<close>, and reading \<^verbatim>\<open>board[y]\<close>
  outside the outer array yields \<^verbatim>\<open>undefined\<close>, on which the second index
  throws a TypeError. Coordinates are integers; a point is the pair \<open>(x, y)\<close>.
\<close>

datatype Player = Black | White

datatype Cell = Undefined | Null | Stone Player

datatype js_error = TypeError

type_synonym Point = "int \<times> int"

type_synonym BoardState = "Cell list list"

definition cloneBoard :: "BoardState \<Rightarrow> BoardState" where
  "cloneBoard board = map (\<lambda>row. row) board"

definition isValidPoint :: "BoardState \<Rightarrow> int \<Rightarrow> int \<Rightarrow> bool" where
  "isValidPoint board x y =
     (let size = int (length board) in x \<ge> 0 \<and> x < size \<and> y \<ge> 0 \<and> y < size)"

definition getNeighbors :: "BoardState \<Rightarrow> int \<Rightarrow> int \<Rightarrow> Point list" where
  "getNeighbors board x y =
     filter (\<lambda>(nx, ny). isValidPoint board nx ny)
       [(x + 1, y + 0), (x + (-1), y + 0), (x + 0, y + 1), (x + 0, y + (-1))]"

text \<open>\<^verbatim>\<open>row[x]\<close>: the element, or \<^verbatim>\<open>undefined\<close> outside the array.\<close>

definition rowAt :: "Cell list \<Rightarrow> int \<Rightarrow> Cell" where
  "rowAt row x = (if 0 \<le> x \<and> x < int (length row) then row ! nat x else Undefined)"

text \<open>\<^verbatim>\<open>board[y][x]\<close> as an expression: throws when \<^verbatim>\<open>board[y]\<close> is undefined.\<close>

definition readCell :: "BoardState \<Rightarrow> int \<Rightarrow> int \<Rightarrow> js_error + Cell" where
  "readCell board x y =
     (if 0 \<le> y \<and> y < int (length board) then Inr (rowAt (board ! nat y) x)
      else Inl TypeError)"

text \<open>
  \<^verbatim>\<open>board[n.y][n.x]\<close> for a point that passed \<^verbatim>\<open>isValidPoint\<close>, where the row
  exists and the read cannot throw (lemma \<open>readCell_valid\<close> below).
\<close>

definition cellAt :: "BoardState \<Rightarrow> Point \<Rightarrow> Cell" where
  "cellAt board p =
     (if 0 \<le> snd p \<and> snd p < int (length board) then rowAt (board ! nat (snd p)) (fst p)
      else Undefined)"

text \<open>
  \<^verbatim>\<open>row[x] = v\<close>: inside the array the slot is replaced; past the end JavaScript
  extends the array, leaving holes; a negative index sets a property that is not an
  element, which none of the functions below reads back.
\<close>

definition rowSet :: "Cell list \<Rightarrow> int \<Rightarrow> Cell \<Rightarrow> Cell list" where
  "rowSet row x v =
     (if x < 0 then row
      else if x < int (length row) then row[nat x := v]
      else row @ replicate (nat x - length row) Undefined @ [v])"

text \<open>
  \<^verbatim>\<open>board[y][x] = v\<close>. Every such assignment in the source follows a read of
  row \<open>y\<close> of a board of the same height, so the row exists when it runs; outside
  the outer array (where JavaScript would throw) the model leaves the board as it is.
\<close>

definition setCell :: "BoardState \<Rightarrow> Point \<Rightarrow> Cell \<Rightarrow> BoardState" where
  "setCell board p v =
     (if 0 \<le> snd p \<and> snd p < int (length board)
      then board[nat (snd p) := rowSet (board ! nat (snd p)) (fst p) v]
      else board)"

section \<open>Group and liberty analyzer (goLogic.ts lines 35-75)\<close>

record GroupResult =
  stones :: "Point list"
  liberties :: "Point list"

text \<open>\<^verbatim>\<open>Set.add\<close> on an insertion-ordered set, kept as a list without duplicates.\<close>

definition setAdd :: "'a \<Rightarrow> 'a list \<Rightarrow> 'a list" where
  "setAdd a xs = (if a \<in> set xs then xs else xs @ [a])"

text \<open>
  The \<^verbatim>\<open>for (const n of neighbors)\<close> loop of \<^verbatim>\<open>getGroup\<close>; the state is
  \<open>(liberties, visited, queue)\<close>. The string keys \<^verbatim>\<open>`${x},${y}`\<close> are an injective
  encoding of integer points, so the sets hold the points themselves.
\<close>

fun visitNeighbors ::
  "BoardState \<Rightarrow> Player \<Rightarrow> Point list \<Rightarrow> Point list \<times> Point list \<times> Point list
     \<Rightarrow> Point list \<times> Point list \<times> Point list" where
  "visitNeighbors board color [] st = st"
| "visitNeighbors board color (n # ns) (libs, visited, queue) =
     (let neighborColor = cellAt board n in
      if neighborColor = Null
      then visitNeighbors board color ns (setAdd n libs, visited, queue)
      else if neighborColor = Stone color \<and> n \<notin> set visited
      then visitNeighbors board color ns (libs, setAdd n visited, queue @ [n])
      else visitNeighbors board color ns (libs, visited, queue))"

text \<open>The \<^verbatim>\<open>while (queue.length > 0)\<close> loop of \<^verbatim>\<open>getGroup\<close>.\<close>

function groupLoop ::
  "BoardState \<Rightarrow> Player \<Rightarrow> Point list \<Rightarrow> Point list \<Rightarrow> Point list \<Rightarrow> Point list
     \<Rightarrow> GroupResult" where
  "groupLoop board color [] visited stns libs = \<lparr>stones = stns, liberties = libs\<rparr>"
| "groupLoop board color (current # queue) visited stns libs =
     (case visitNeighbors board color (getNeighbors board (fst current) (snd current))
             (libs, visited, queue) of
        (libs', visited', queue') \<Rightarrow>
          groupLoop board color queue' visited' (stns @ [current]) libs')"
  by pat_completeness auto

text \<open>The points that pass \<^verbatim>\<open>isValidPoint\<close>; the flood fills never leave this finite set.\<close>

definition validPoints :: "BoardState \<Rightarrow> Point set" where
  "validPoints board = {p. isValidPoint board (fst p) (snd p)}"

lemma validPoints_finite: "finite (validPoints board)"
proof -
  have "validPoints board \<subseteq> {0..<int (length board)} \<times> {0..<int (length board)}"
    by (auto simp: validPoints_def isValidPoint_def Let_def)
  then show ?thesis by (rule finite_subset) simp
qed

lemma getNeighbors_valid: "set (getNeighbors board x y) \<subseteq> validPoints board"
  by (auto simp: getNeighbors_def validPoints_def)

lemma visitNeighbors_shape:
  "visitNeighbors board color ns (l, v, q) = (l', v', q') \<Longrightarrow>
     \<exists>new. v' = v @ new \<and> q' = q @ new \<and> distinct new \<and> set new \<inter> set v = {}
        \<and> set new \<subseteq> set ns"
proof (induction ns arbitrary: l v q)
  case Nil
  then show ?case by simp
next
  case (Cons n ns)
  show ?case
  proof (cases "cellAt board n = Null")
    case True
    with Cons.prems have "visitNeighbors board color ns (setAdd n l, v, q) = (l', v', q')"
      by simp
    from Cons.IH[OF this] show ?thesis by auto
  next
    case False
    show ?thesis
    proof (cases "cellAt board n = Stone color \<and> n \<notin> set v")
      case True
      with False Cons.prems
      have "visitNeighbors board color ns (l, v @ [n], q @ [n]) = (l', v', q')"
        by (simp add: setAdd_def)
      from Cons.IH[OF this] obtain new where
        n: "v' = (v @ [n]) @ new" "q' = (q @ [n]) @ new" "distinct new"
           "set new \<inter> set (v @ [n]) = {}" "set new \<subseteq> set ns"
        by blast
      with True have "v' = v @ (n # new) \<and> q' = q @ (n # new) \<and> distinct (n # new)
            \<and> set (n # new) \<inter> set v = {} \<and> set (n # new) \<subseteq> set (n # ns)"
        by auto
      then show ?thesis by blast
    next
      case F2: False
      with False Cons.prems have "visitNeighbors board color ns (l, v, q) = (l', v', q')"
        by auto
      from Cons.IH[OF this] show ?thesis by auto
    qed
  qed
qed

lemma card_unvisited_append:
  assumes "finite V" "distinct new" "set new \<subseteq> V" "set new \<inter> set v = {}"
  shows "card (V - set (v @ new)) + length new = card (V - set v)"
proof -
  have "V - set (v @ new) = (V - set v) - set new" by auto
  moreover have "set new \<subseteq> V - set v" using assms by auto
  moreover have "card (set new) = length new" using assms by (simp add: distinct_card)
  ultimately show ?thesis using assms(1)
    by (metis List.finite_set card_Diff_subset card_mono finite_Diff le_add_diff_inverse2)
qed

lemma groupLoop_measure:
  assumes "visitNeighbors board color (getNeighbors board x y) (libs, visited, queue)
             = (libs', visited', queue')"
  shows "2 * card (validPoints board - set visited') + length queue'
           < Suc (2 * card (validPoints board - set visited) + length queue)"
proof -
  from visitNeighbors_shape[OF assms] obtain new where
    n: "visited' = visited @ new" "queue' = queue @ new" "distinct new"
       "set new \<inter> set visited = {}"
       "set new \<subseteq> set (getNeighbors board x y)"
    by blast
  then have "set new \<subseteq> validPoints board" using getNeighbors_valid by blast
  from card_unvisited_append[OF validPoints_finite n(3) this n(4)]
  have "card (validPoints board - set visited') + length new
          = card (validPoints board - set visited)"
    using n(1) by simp
  then show ?thesis using n(2) by simp
qed

termination groupLoop
  apply (relation "measure (\<lambda>(board, color, queue, visited, stns, libs).
          2 * card (validPoints board - set visited) + length queue)")
   apply simp
  apply clarsimp
  apply (drule sym)
  apply (drule groupLoop_measure)
  apply simp
  done

text \<open>Lines 45-74 of \<^verbatim>\<open>getGroup\<close>, for a seed holding a stone of \<open>color\<close>.\<close>

definition floodFill :: "BoardState \<Rightarrow> Player \<Rightarrow> Point \<Rightarrow> GroupResult" where
  "floodFill board color p = groupLoop board color [p] [p] [] []"

text \<open>
  \<^verbatim>\<open>getGroup\<close>: \<^verbatim>\<open>if (!color) return { stones: [], liberties: [] }\<close> takes both
  \<^verbatim>\<open>null\<close> and \<^verbatim>\<open>undefined\<close>.
\<close>

definition getGroup :: "BoardState \<Rightarrow> int \<Rightarrow> int \<Rightarrow> js_error + GroupResult" where
  "getGroup board x y =
     (case readCell board x y of
        Inl e \<Rightarrow> Inl e
      | Inr Undefined \<Rightarrow> Inr \<lparr>stones = [], liberties = []\<rparr>
      | Inr Null \<Rightarrow> Inr \<lparr>stones = [], liberties = []\<rparr>
      | Inr (Stone color) \<Rightarrow> Inr (floodFill board color (x, y)))"

section \<open>Move evaluator (goLogic.ts lines 77-131)\<close>

record MoveResult =
  valid :: bool
  newBoard :: "BoardState option"
  capturedCount :: "nat option"
  message :: "string option"

text \<open>\<^verbatim>\<open>group.stones.forEach(stone => { newBoard[stone.y][stone.x] = null; capturedCount++ })\<close>\<close>

fun removeStones :: "Point list \<Rightarrow> BoardState \<times> nat \<Rightarrow> BoardState \<times> nat" where
  "removeStones [] st = st"
| "removeStones (stone # rest) (nb, cnt) = removeStones rest (setCell nb stone Null, cnt + 1)"

text \<open>
  \<^verbatim>\<open>neighbors.forEach(n => ...)\<close> of step 2, on the speculative board and the
  running capture count.
\<close>

fun captureNeighbors ::
  "Player \<Rightarrow> Point list \<Rightarrow> BoardState \<times> nat \<Rightarrow> js_error + (BoardState \<times> nat)" where
  "captureNeighbors opponent [] st = Inr st"
| "captureNeighbors opponent (n # ns) (nb, cnt) =
     (if cellAt nb n = Stone opponent
      then (case getGroup nb (fst n) (snd n) of
              Inl e \<Rightarrow> Inl e
            | Inr grp \<Rightarrow>
                if length (liberties grp) = 0
                then captureNeighbors opponent ns (removeStones (stones grp) (nb, cnt))
                else captureNeighbors opponent ns (nb, cnt))
      else captureNeighbors opponent ns (nb, cnt))"

text \<open>
  Lines 91-113 of \<^verbatim>\<open>attemptMove\<close>, reached once the target read as \<^verbatim>\<open>null\<close>:
  the stone is placed on a copy and the captures are resolved. The result is the
  speculative board and \<^verbatim>\<open>capturedCount\<close>.
\<close>

definition resolveCaptures ::
  "BoardState \<Rightarrow> int \<Rightarrow> int \<Rightarrow> Player \<Rightarrow> js_error + (BoardState \<times> nat)" where
  "resolveCaptures board x y player =
     (let newBoard0 = setCell (cloneBoard board) (x, y) (Stone player);
          opponent = (if player = Black then White else Black);
          neighbors = getNeighbors newBoard0 x y
      in captureNeighbors opponent neighbors (newBoard0, 0))"

text \<open>
  \<^verbatim>\<open>attemptMove\<close>; the optional parameter \<^verbatim>\<open>previousBoardHash\<close> is never read
  and is left out. Absent optional fields of the result are \<open>None\<close>.
\<close>

definition attemptMove ::
  "BoardState \<Rightarrow> int \<Rightarrow> int \<Rightarrow> Player \<Rightarrow> js_error + MoveResult" where
  "attemptMove board x y player =
     (case readCell board x y of
        Inl e \<Rightarrow> Inl e
      | Inr target \<Rightarrow>
          if target \<noteq> Null
          then Inr \<lparr>valid = False, newBoard = None, capturedCount = None,
                    message = Some ''Point is already occupied.''\<rparr>
          else (case resolveCaptures board x y player of
                  Inl e \<Rightarrow> Inl e
                | Inr (newBoard1, captured) \<Rightarrow>
                    (case getGroup newBoard1 x y of
                       Inl e \<Rightarrow> Inl e
                     | Inr myGroup \<Rightarrow>
                         if length (liberties myGroup) = 0
                         then Inr \<lparr>valid = False, newBoard = None, capturedCount = None,
                                   message = Some ''Suicide move is not allowed.''\<rparr>
                         else Inr \<lparr>valid = True, newBoard = Some newBoard1,
                                   capturedCount = Some captured, message = None\<rparr>)))"

definition initializeBoard :: "nat \<Rightarrow> BoardState" where
  "initializeBoard n = replicate n (replicate n Null)"

section \<open>Territory scorer (goLogic.ts lines 133-231)\<close>

text \<open>
  \<^verbatim>\<open>ScoreResult\<close>. The numbers involved are stone counts, capture counters and a
  komi such as 6.5; they are modelled as exact rationals.
\<close>

record SideScore =
  territory :: rat
  captures :: rat
  total :: rat

record WhiteScore = SideScore +
  komi :: rat

datatype Winner = Wins Player | draw

record ScoreResult =
  black :: SideScore
  white :: WhiteScore
  winner :: Winner

text \<open>
  \<^verbatim>\<open>deadStones.forEach(pos => ...)\<close> (lines 151-157). A key \<^verbatim>\<open>"x,y"\<close> is
  modelled by the point it parses to, and the set by the list of its keys in
  insertion order. The state is \<open>(scoreBoard, blackDeadCount, whiteDeadCount)\<close>.
\<close>

fun markDead ::
  "BoardState \<Rightarrow> Point list \<Rightarrow> BoardState \<times> nat \<times> nat
     \<Rightarrow> js_error + (BoardState \<times> nat \<times> nat)" where
  "markDead board [] st = Inr st"
| "markDead board (pos # rest) (scoreBoard, blackDeadCount, whiteDeadCount) =
     (case readCell board (fst pos) (snd pos) of
        Inl e \<Rightarrow> Inl e
      | Inr stone \<Rightarrow>
          markDead board rest
            (setCell scoreBoard pos Null,
             (if stone = Stone Black then blackDeadCount + 1 else blackDeadCount),
             (if stone = Stone White then whiteDeadCount + 1 else whiteDeadCount)))"

text \<open>
  The \<^verbatim>\<open>for (const n of neighbors)\<close> loop of the region fill (lines 177-190); the
  state is \<open>(visited, queue, region, touchingColors)\<close>. \<^verbatim>\<open>touchingColors\<close> receives
  whatever the cell holds when it is not \<^verbatim>\<open>null\<close>.
\<close>

fun fillNeighbors ::
  "BoardState \<Rightarrow> Point list \<Rightarrow> Point list \<times> Point list \<times> Point list \<times> Cell list
     \<Rightarrow> Point list \<times> Point list \<times> Point list \<times> Cell list" where
  "fillNeighbors scoreBoard [] st = st"
| "fillNeighbors scoreBoard (n # ns) (visited, queue, region, touchingColors) =
     (let content = cellAt scoreBoard n in
      if content = Null
      then (if n \<notin> set visited
            then fillNeighbors scoreBoard ns
                   (setAdd n visited, queue @ [n], region @ [n], touchingColors)
            else fillNeighbors scoreBoard ns (visited, queue, region, touchingColors))
      else fillNeighbors scoreBoard ns
             (visited, queue, region, setAdd content touchingColors))"

lemma fillNeighbors_shape:
  "fillNeighbors scoreBoard ns (v, q, r, t) = (v', q', r', t') \<Longrightarrow>
     \<exists>new. v' = v @ new \<and> q' = q @ new \<and> distinct new \<and> set new \<inter> set v = {}
        \<and> set new \<subseteq> set ns"
proof (induction ns arbitrary: v q r t)
  case Nil
  then show ?case by simp
next
  case (Cons n ns)
  show ?case
  proof (cases "cellAt scoreBoard n = Null \<and> n \<notin> set v")
    case True
    with Cons.prems
    have "fillNeighbors scoreBoard ns (v @ [n], q @ [n], r @ [n], t) = (v', q', r', t')"
      by (simp add: setAdd_def)
    from Cons.IH[OF this] obtain new where
      n: "v' = (v @ [n]) @ new" "q' = (q @ [n]) @ new" "distinct new"
         "set new \<inter> set (v @ [n]) = {}" "set new \<subseteq> set ns"
      by blast
    with True have "v' = v @ (n # new) \<and> q' = q @ (n # new) \<and> distinct (n # new)
          \<and> set (n # new) \<inter> set v = {} \<and> set (n # new) \<subseteq> set (n # ns)"
      by auto
    then show ?thesis by blast
  next
    case False
    with Cons.prems obtain t0 where
      "fillNeighbors scoreBoard ns (v, q, r, t0) = (v', q', r', t')"
      by (auto simp: Let_def split: if_splits)
    from Cons.IH[OF this] show ?thesis by auto
  qed
qed

text \<open>The \<^verbatim>\<open>while (queue.length > 0)\<close> loop of the region fill (lines 173-191).\<close>

function regionLoop ::
  "BoardState \<Rightarrow> Point list \<Rightarrow> Point list \<Rightarrow> Point list \<Rightarrow> Cell list
     \<Rightarrow> Point list \<times> Point list \<times> Cell list" where
  "regionLoop scoreBoard [] visited region touchingColors = (visited, region, touchingColors)"
| "regionLoop scoreBoard (cur # queue) visited region touchingColors =
     (case fillNeighbors scoreBoard (getNeighbors scoreBoard (fst cur) (snd cur))
             (visited, queue, region, touchingColors) of
        (visited', queue', region', touchingColors') \<Rightarrow>
          regionLoop scoreBoard queue' visited' region' touchingColors')"
  by pat_completeness auto

lemma regionLoop_measure:
  assumes "fillNeighbors scoreBoard (getNeighbors scoreBoard x y) (visited, queue, region, t)
             = (visited', queue', region', t')"
  shows "2 * card (validPoints scoreBoard - set visited') + length queue'
           < Suc (2 * card (validPoints scoreBoard - set visited) + length queue)"
proof -
  from fillNeighbors_shape[OF assms] obtain new where
    n: "visited' = visited @ new" "queue' = queue @ new" "distinct new"
       "set new \<inter> set visited = {}"
       "set new \<subseteq> set (getNeighbors scoreBoard x y)"
    by blast
  then have "set new \<subseteq> validPoints scoreBoard" using getNeighbors_valid by blast
  from card_unvisited_append[OF validPoints_finite n(3) this n(4)]
  have "card (validPoints scoreBoard - set visited') + length new
          = card (validPoints scoreBoard - set visited)"
    using n(1) by simp
  then show ?thesis using n(2) by simp
qed

termination regionLoop
  apply (relation "measure (\<lambda>(scoreBoard, queue, visited, region, touchingColors).
          2 * card (validPoints scoreBoard - set visited) + length queue)")
   apply simp
  apply clarsimp
  apply (drule sym)
  apply (drule regionLoop_measure)
  apply simp
  done

text \<open>
  The body of the two \<^verbatim>\<open>for\<close> loops (lines 164-204) at one point; the state is
  \<open>(visited, blackTerritory, whiteTerritory)\<close>.
\<close>

definition scanPoint ::
  "BoardState \<Rightarrow> Point \<Rightarrow> Point list \<times> nat \<times> nat \<Rightarrow> Point list \<times> nat \<times> nat" where
  "scanPoint scoreBoard p st =
     (case st of (visited, blackTerritory, whiteTerritory) \<Rightarrow>
        if cellAt scoreBoard p = Null \<and> p \<notin> set visited
        then (case regionLoop scoreBoard [p] (setAdd p visited) [p] [] of
                (visited', region, touchingColors) \<Rightarrow>
                  if length touchingColors = 1
                  then (if Stone Black \<in> set touchingColors
                        then (visited', blackTerritory + length region, whiteTerritory)
                        else if Stone White \<in> set touchingColors
                        then (visited', blackTerritory, whiteTerritory + length region)
                        else (visited', blackTerritory, whiteTerritory))
                  else (visited', blackTerritory, whiteTerritory))
        else (visited, blackTerritory, whiteTerritory))"

text \<open>\<^verbatim>\<open>for (let y = 0; y < size; y++) for (let x = 0; x < size; x++)\<close>: rows outermost.\<close>

definition scanOrder :: "nat \<Rightarrow> Point list" where
  "scanOrder n = concat (map (\<lambda>y. map (\<lambda>x. (int x, int y)) [0..<n]) [0..<n])"

definition scanBoard :: "nat \<Rightarrow> BoardState \<Rightarrow> Point list \<times> nat \<times> nat" where
  "scanBoard n scoreBoard = fold (scanPoint scoreBoard) (scanOrder n) ([], 0, 0)"

text \<open>\<^verbatim>\<open>export const KOMI = 6.5\<close> (src/constants.ts).\<close>

definition KOMI :: rat where
  "KOMI = 13 / 2"

text \<open>
  \<^verbatim>\<open>calculateFinalScore\<close>; \<^verbatim>\<open>captures\<close> is the object
  \<^verbatim>\<open>{ black: number, white: number }\<close>, read as a function of the colour. The
  parameter \<^verbatim>\<open>komi\<close> defaults to \<open>KOMI\<close>, which the caller also passes itself.
\<close>

definition calculateFinalScore ::
  "BoardState \<Rightarrow> Point list \<Rightarrow> (Player \<Rightarrow> rat) \<Rightarrow> rat \<Rightarrow> js_error + ScoreResult" where
  "calculateFinalScore board deadStones caps komiPoints =
     (case markDead board deadStones (cloneBoard board, 0, 0) of
        Inl e \<Rightarrow> Inl e
      | Inr (scoreBoard, blackDeadCount, whiteDeadCount) \<Rightarrow>
          (case scanBoard (length board) scoreBoard of
             (visited, blackTerritory, whiteTerritory) \<Rightarrow>
               (let totalBlackCaptures = caps Black + of_nat whiteDeadCount;
                    totalBlack = of_nat blackTerritory + totalBlackCaptures;
                    totalWhiteCaptures = caps White + of_nat blackDeadCount;
                    totalWhite = of_nat whiteTerritory + totalWhiteCaptures + komiPoints
                in Inr \<lparr>black = \<lparr>territory = of_nat blackTerritory,
                                    captures = totalBlackCaptures, total = totalBlack\<rparr>,
                          white = \<lparr>territory = of_nat whiteTerritory,
                                    captures = totalWhiteCaptures, total = totalWhite,
                                    komi = komiPoints\<rparr>,
                          winner = (if totalBlack > totalWhite then Wins Black
                                    else Wins White)\<rparr>)))"

section \<open>Specification-level notions\<close>

subsection \<open>What a group and its liberties are (spec section 4.2 and glossary)\<close>

text \<open>A point of the N x N board: both coordinates in \<open>0 .. N-1\<close>.\<close>

definition onBoard :: "BoardState \<Rightarrow> Point \<Rightarrow> bool" where
  "onBoard board p = (0 \<le> fst p \<and> fst p < int (length board) \<and> 0 \<le> snd p \<and> snd p < int (length board))"

text \<open>Orthogonal adjacency: one step along one axis.\<close>

definition adjacent :: "Point \<Rightarrow> Point \<Rightarrow> bool" where
  "adjacent p q = (\<bar>fst p - fst q\<bar> + \<bar>snd p - snd q\<bar> = 1)"

text \<open>Two orthogonally adjacent points of the board that both hold a stone of \<open>color\<close>.\<close>

definition chainEdge :: "BoardState \<Rightarrow> Player \<Rightarrow> (Point \<times> Point) set" where
  "chainEdge board color =
     {(p, q). adjacent p q \<and> onBoard board p \<and> onBoard board q
        \<and> cellAt board p = Stone color \<and> cellAt board q = Stone color}"

text \<open>
  The group of an occupied point: every stone linked to it by a chain of orthogonally
  adjacent stones of its colour (the maximal connected set containing it).
\<close>

definition groupSet :: "BoardState \<Rightarrow> Point \<Rightarrow> Point set" where
  "groupSet board p =
     (case cellAt board p of
        Stone color \<Rightarrow> {q. (p, q) \<in> (chainEdge board color)\<^sup>*}
      | _ \<Rightarrow> {})"

text \<open>The liberties of that group: the empty points adjacent to one of its stones.\<close>

definition libertySet :: "BoardState \<Rightarrow> Point \<Rightarrow> Point set" where
  "libertySet board p =
     {l. onBoard board l \<and> cellAt board l = Null \<and> (\<exists>s \<in> groupSet board p. adjacent s l)}"

subsection \<open>Boards the engine is meant for (spec section 3)\<close>

text \<open>Every row is as long as the board is high.\<close>

definition squareBoard :: "BoardState \<Rightarrow> bool" where
  "squareBoard board = (\<forall>row \<in> set board. length row = length board)"

text \<open>Every slot of the board holds a stone or \<^verbatim>\<open>null\<close>.\<close>

definition noHoles :: "BoardState \<Rightarrow> bool" where
  "noHoles sb = (\<forall>p. onBoard sb p \<longrightarrow> cellAt sb p \<noteq> Undefined)"

text \<open>No group on the board is without a liberty.\<close>

definition legalBoard :: "BoardState \<Rightarrow> bool" where
  "legalBoard board =
     (\<forall>p c. onBoard board p \<and> cellAt board p = Stone c \<longrightarrow> libertySet board p \<noteq> {})"

text \<open>An executable test of legality, by one flood fill per stone.\<close>

definition legalCheck :: "BoardState \<Rightarrow> bool" where
  "legalCheck board =
     list_all (\<lambda>p. case cellAt board p of
                      Stone c \<Rightarrow> liberties (floodFill board c p) \<noteq> []
                    | _ \<Rightarrow> True)
       (scanOrder (length board))"

subsection \<open>What a move captures (spec section 4.3)\<close>

text \<open>The colour that is not \<open>player\<close>.\<close>

definition opponentOf :: "Player \<Rightarrow> Player" where
  "opponentOf player = (if player = Black then White else Black)"

text \<open>
  The stones a move captures among the groups of the points \<open>N\<close>: every group of
  \<open>opp\<close> stones on the board \<open>placed\<close> that contains a point of \<open>N\<close> and has no
  liberty there.
\<close>

definition capturedGroups :: "BoardState \<Rightarrow> Player \<Rightarrow> Point set \<Rightarrow> Point set" where
  "capturedGroups placed opp N =
     (\<Union>n \<in> {n \<in> N. cellAt placed n = Stone opp \<and> libertySet placed n = {}}. groupSet placed n)"

text \<open>
  The stones captured by \<open>player\<close> moving at \<open>p\<close>: the opponent groups orthogonally
  adjacent to \<open>p\<close> whose liberty count after the placement is zero.
\<close>

definition captured :: "BoardState \<Rightarrow> Point \<Rightarrow> Player \<Rightarrow> Point set" where
  "captured board p player =
     capturedGroups (setCell board p (Stone player)) (opponentOf player)
       {n. onBoard board n \<and> adjacent p n}"

text \<open>
  The board a legal move leaves, point by point: the new stone at \<open>p\<close>, captured
  stones removed, every other point as before.
\<close>

definition afterMove :: "BoardState \<Rightarrow> Point \<Rightarrow> Player \<Rightarrow> Point \<Rightarrow> Cell" where
  "afterMove board p player q =
     (if q = p then Stone player
      else if q \<in> captured board p player then Null
      else cellAt board q)"

subsection \<open>What regions and territory are (spec section 4.4 and glossary)\<close>

text \<open>Two orthogonally adjacent empty points of the board.\<close>

definition emptyEdge :: "BoardState \<Rightarrow> (Point \<times> Point) set" where
  "emptyEdge sb =
     {(p, q). adjacent p q \<and> onBoard sb p \<and> onBoard sb q
        \<and> cellAt sb p = Null \<and> cellAt sb q = Null}"

text \<open>The maximal 4-connected region of empty points containing the empty point \<open>p\<close>.\<close>

definition regionSet :: "BoardState \<Rightarrow> Point \<Rightarrow> Point set" where
  "regionSet sb p = {q. (p, q) \<in> (emptyEdge sb)\<^sup>*}"

text \<open>The colours of the stones bordering the region of \<open>p\<close>.\<close>

definition borderColours :: "BoardState \<Rightarrow> Point \<Rightarrow> Player set" where
  "borderColours sb p =
     {c. \<exists>q \<in> regionSet sb p. \<exists>n. onBoard sb n \<and> adjacent q n \<and> cellAt sb n = Stone c}"

text \<open>The territory of a colour: the empty points whose region borders that colour only.\<close>

definition territorySet :: "BoardState \<Rightarrow> Player \<Rightarrow> Point set" where
  "territorySet sb c = {p. onBoard sb p \<and> cellAt sb p = Null \<and> borderColours sb p = {c}}"

text \<open>The neutral points: empty, with a region bordering both colours or none.\<close>

definition neutralSet :: "BoardState \<Rightarrow> Point set" where
  "neutralSet sb =
     {p. onBoard sb p \<and> cellAt sb p = Null
          \<and> (borderColours sb p = {} \<or> borderColours sb p = {Black, White})}"

subsection \<open>Auxiliary definitions of the proofs\<close>

text \<open>The loop invariant of the flood fill.\<close>

definition groupInv ::
  "BoardState \<Rightarrow> Player \<Rightarrow> Point \<Rightarrow> Point list \<Rightarrow> Point list \<Rightarrow> Point list \<Rightarrow> Point list \<Rightarrow> bool" where
  "groupInv board color seed queue visited stns libs \<longleftrightarrow>
     set visited = set stns \<union> set queue
   \<and> distinct (stns @ queue)
   \<and> seed \<in> set visited
   \<and> (\<forall>p \<in> set visited. (seed, p) \<in> (chainEdge board color)\<^sup>* \<and> onBoard board p
          \<and> cellAt board p = Stone color)
   \<and> (\<forall>s \<in> set stns. \<forall>q. (s, q) \<in> chainEdge board color \<longrightarrow> q \<in> set visited)
   \<and> set libs = {l. onBoard board l \<and> cellAt board l = Null \<and> (\<exists>s \<in> set stns. adjacent s l)}
   \<and> distinct libs"

text \<open>The scoring board: a copy of the board with every dead-stone key set to \<^verbatim>\<open>null\<close>.\<close>

definition scoreView :: "BoardState \<Rightarrow> Point list \<Rightarrow> BoardState" where
  "scoreView board ds = fold (\<lambda>p b. setCell b p Null) ds (cloneBoard board)"

text \<open>The result record of lines 208-230, from the territories and dead-stone counts.\<close>

definition scoreOf ::
  "nat \<Rightarrow> nat \<Rightarrow> nat \<Rightarrow> nat \<Rightarrow> (Player \<Rightarrow> rat) \<Rightarrow> rat \<Rightarrow> ScoreResult" where
  "scoreOf bt wt bd wd caps k =
     \<lparr>black = \<lparr>territory = of_nat bt, captures = caps Black + of_nat wd,
                total = of_nat bt + (caps Black + of_nat wd)\<rparr>,
      white = \<lparr>territory = of_nat wt, captures = caps White + of_nat bd,
                total = of_nat wt + (caps White + of_nat bd) + k, komi = k\<rparr>,
      winner = (if of_nat bt + (caps Black + of_nat wd) > of_nat wt + (caps White + of_nat bd) + k
                then Wins Black else Wins White)\<rparr>"

text \<open>
  The loop invariant of the region fill; \<open>V0\<close> is the visited list before the fill
  and \<open>processed\<close> the points already taken from the queue.
\<close>

definition regionInv ::
  "BoardState \<Rightarrow> Point \<Rightarrow> Point list \<Rightarrow> Point list \<Rightarrow> Point list \<Rightarrow> Point list
     \<Rightarrow> Point list \<Rightarrow> Cell list \<Rightarrow> bool" where
  "regionInv sb seed V0 processed queue visited region touching \<longleftrightarrow>
     visited = V0 @ region
   \<and> region = processed @ queue
   \<and> distinct visited
   \<and> seed \<in> set region
   \<and> (\<forall>p \<in> set region. (seed, p) \<in> (emptyEdge sb)\<^sup>* \<and> onBoard sb p \<and> cellAt sb p = Null)
   \<and> (\<forall>s \<in> set processed. \<forall>q. (s, q) \<in> emptyEdge sb \<longrightarrow> q \<in> set visited)
   \<and> set touching = cellAt sb ` {n. onBoard sb n \<and> cellAt sb n \<noteq> Null
                                        \<and> (\<exists>s \<in> set processed. adjacent s n)}
   \<and> distinct touching"

text \<open>The invariant of the scan, after the points \<open>D\<close>.\<close>

definition scanInv :: "BoardState \<Rightarrow> Point set \<Rightarrow> Point list \<times> nat \<times> nat \<Rightarrow> bool" where
  "scanInv sb D st \<longleftrightarrow>
     (case st of (visited, bt, wt) \<Rightarrow>
        distinct visited
      \<and> (\<forall>v \<in> set visited. onBoard sb v \<and> cellAt sb v = Null)
      \<and> (\<forall>v \<in> set visited. \<forall>q. (v, q) \<in> emptyEdge sb \<longrightarrow> q \<in> set visited)
      \<and> (\<forall>p \<in> D. onBoard sb p \<and> cellAt sb p = Null \<longrightarrow> p \<in> set visited)
      \<and> bt = card (territorySet sb Black \<inter> set visited)
      \<and> wt = card (territorySet sb White \<inter> set visited))"

subsection \<open>Example positions\<close>

definition exampleBoard :: BoardState where
  "exampleBoard =
     [[Null, Stone White, Stone Black],
      [Stone White, Stone Black, Null],
      [Stone Black, Null, Null]]"

definition afterCapture :: BoardState where
  "afterCapture =
     [[Stone Black, Null, Stone Black],
      [Null, Stone Black, Null],
      [Stone Black, Null, Null]]"

definition suicideBoard :: BoardState where
  "suicideBoard =
     [[Null, Stone White, Null],
      [Stone White, Null, Null],
      [Null, Null, Null]]"

definition suicidePlaced :: BoardState where
  "suicidePlaced =
     [[Stone Black, Stone White, Null],
      [Stone White, Null, Null],
      [Null, Null, Null]]"

definition illegalBoard :: BoardState where
  "illegalBoard =
     [[Stone White, Stone Black, Null],
      [Stone Black, Null, Null],
      [Null, Null, Null]]"

definition illegalAfter :: BoardState where
  "illegalAfter =
     [[Stone White, Stone Black, Null],
      [Stone Black, Null, Null],
      [Null, Null, Stone Black]]"

definition scoringBoard :: BoardState where
  "scoringBoard =
     [[Null, Stone Black, Null],
      [Stone Black, Stone Black, Stone White],
      [Null, Stone White, Null]]"

section \<open>The flood fill computes the group and its liberties\<close>

lemma isValidPoint_onBoard: "isValidPoint board x y = onBoard board (x, y)"
  by (auto simp: isValidPoint_def onBoard_def Let_def)

lemma adjacent_iff:
  "adjacent (x, y) (a, b) \<longleftrightarrow>
     (a = x + 1 \<and> b = y) \<or> (a = x - 1 \<and> b = y) \<or> (a = x \<and> b = y + 1) \<or> (a = x \<and> b = y - 1)"
  unfolding adjacent_def fst_conv snd_conv by arith

lemma getNeighbors_iff:
  "q \<in> set (getNeighbors board x y) \<longleftrightarrow> onBoard board q \<and> adjacent (x, y) q"
proof (cases q)
  case (Pair a b)
  have "q \<in> set (getNeighbors board x y) \<longleftrightarrow>
          onBoard board (a, b) \<and> ((a = x + 1 \<and> b = y) \<or> (a = x - 1 \<and> b = y)
             \<or> (a = x \<and> b = y + 1) \<or> (a = x \<and> b = y - 1))"
    unfolding getNeighbors_def Pair by (simp add: isValidPoint_onBoard) blast
  then show ?thesis unfolding Pair adjacent_iff .
qed

lemma readCell_valid:
  "isValidPoint board x y \<Longrightarrow> readCell board x y = Inr (cellAt board (x, y))"
  by (simp add: readCell_def cellAt_def isValidPoint_def Let_def)

lemma set_setAdd: "set (setAdd a xs) = insert a (set xs)"
  by (auto simp: setAdd_def)

lemma distinct_setAdd: "distinct xs \<Longrightarrow> distinct (setAdd a xs)"
  by (auto simp: setAdd_def)

lemma visitNeighbors_spec:
  "visitNeighbors board color ns (l, v, q) = (l', v', q') \<Longrightarrow>
     (\<exists>new. v' = v @ new \<and> q' = q @ new \<and> distinct new
        \<and> set new = {n \<in> set ns. cellAt board n = Stone color \<and> n \<notin> set v})
     \<and> set l' = set l \<union> {n \<in> set ns. cellAt board n = Null}
     \<and> (distinct l \<longrightarrow> distinct l')"
proof (induction ns arbitrary: l v q)
  case Nil
  then show ?case by simp
next
  case (Cons n ns)
  show ?case
  proof (cases "cellAt board n = Null")
    case True
    with Cons.prems have "visitNeighbors board color ns (setAdd n l, v, q) = (l', v', q')"
      by simp
    from Cons.IH[OF this] True show ?thesis
      by (auto simp: set_setAdd distinct_setAdd)
  next
    case False
    show ?thesis
    proof (cases "cellAt board n = Stone color \<and> n \<notin> set v")
      case True
      with False Cons.prems
      have "visitNeighbors board color ns (l, v @ [n], q @ [n]) = (l', v', q')"
        by (simp add: setAdd_def)
      from Cons.IH[OF this] obtain new where
        n: "v' = (v @ [n]) @ new" "q' = (q @ [n]) @ new" "distinct new"
           "set new = {m \<in> set ns. cellAt board m = Stone color \<and> m \<notin> set (v @ [n])}"
        and l: "set l' = set l \<union> {n \<in> set ns. cellAt board n = Null}"
           "distinct l \<longrightarrow> distinct l'"
        by blast
      from n True have "v' = v @ (n # new) \<and> q' = q @ (n # new) \<and> distinct (n # new)
            \<and> set (n # new) = {m \<in> set (n # ns). cellAt board m = Stone color \<and> m \<notin> set v}"
        by auto
      then have "\<exists>new. v' = v @ new \<and> q' = q @ new \<and> distinct new
        \<and> set new = {m \<in> set (n # ns). cellAt board m = Stone color \<and> m \<notin> set v}"
        by blast
      moreover from l False have "set l' = set l \<union> {m \<in> set (n # ns). cellAt board m = Null}"
        by auto
      ultimately show ?thesis using l(2) by blast
    next
      case F2: False
      with False Cons.prems have "visitNeighbors board color ns (l, v, q) = (l', v', q')"
        by auto
      from Cons.IH[OF this] False F2 show ?thesis by auto
    qed
  qed
qed

lemma groupInv_step:
  assumes inv: "groupInv board color seed (current # queue) visited stns libs"
    and vn: "visitNeighbors board color (getNeighbors board (fst current) (snd current))
               (libs, visited, queue) = (libs', visited', queue')"
  shows "groupInv board color seed queue' visited' (stns @ [current]) libs'"
proof -
  let ?ns = "getNeighbors board (fst current) (snd current)"
  from visitNeighbors_spec[OF vn] obtain new where
    n: "visited' = visited @ new" "queue' = queue @ new" "distinct new"
       "set new = {n \<in> set ?ns. cellAt board n = Stone color \<and> n \<notin> set visited}"
    and l: "set libs' = set libs \<union> {n \<in> set ?ns. cellAt board n = Null}"
       "distinct libs \<longrightarrow> distinct libs'"
    by blast
  from inv have v: "set visited = set stns \<union> set (current # queue)"
    and d: "distinct (stns @ current # queue)"
    and s: "seed \<in> set visited"
    and r: "\<forall>p \<in> set visited. (seed, p) \<in> (chainEdge board color)\<^sup>* \<and> onBoard board p
          \<and> cellAt board p = Stone color"
    and c: "\<forall>s \<in> set stns. \<forall>q. (s, q) \<in> chainEdge board color \<longrightarrow> q \<in> set visited"
    and li: "set libs = {l. onBoard board l \<and> cellAt board l = Null
                \<and> (\<exists>s \<in> set stns. adjacent s l)}"
    and dl: "distinct libs"
    unfolding groupInv_def by blast+
  have cur: "current \<in> set visited" using v by simp
  have ns_iff: "\<And>q. q \<in> set ?ns \<longleftrightarrow> onBoard board q \<and> adjacent current q"
    using getNeighbors_iff[of _ board "fst current" "snd current"] by simp
  have 1: "set visited' = set (stns @ [current]) \<union> set queue'"
    using n v by auto
  have 2: "distinct ((stns @ [current]) @ queue')"
    using n d v by auto
  have 3: "seed \<in> set visited'" using s n by simp
  have 4: "\<forall>p \<in> set visited'. (seed, p) \<in> (chainEdge board color)\<^sup>* \<and> onBoard board p
          \<and> cellAt board p = Stone color"
  proof
    fix p assume "p \<in> set visited'"
    then consider "p \<in> set visited" | "p \<in> set new" using n by auto
    then show "(seed, p) \<in> (chainEdge board color)\<^sup>* \<and> onBoard board p
          \<and> cellAt board p = Stone color"
    proof cases
      case 1
      then show ?thesis using r by blast
    next
      case 2
      then have p: "onBoard board p" "adjacent current p" "cellAt board p = Stone color"
        using n(4) ns_iff by auto
      with r cur have "(current, p) \<in> chainEdge board color"
        by (auto simp: chainEdge_def)
      moreover have "(seed, current) \<in> (chainEdge board color)\<^sup>*" using r cur by blast
      ultimately show ?thesis using p by auto
    qed
  qed
  have 5: "\<forall>s \<in> set (stns @ [current]). \<forall>q. (s, q) \<in> chainEdge board color \<longrightarrow> q \<in> set visited'"
  proof (intro ballI allI impI)
    fix s q assume s: "s \<in> set (stns @ [current])" and e: "(s, q) \<in> chainEdge board color"
    show "q \<in> set visited'"
    proof (cases "s \<in> set stns")
      case True
      with c e have "q \<in> set visited" by blast
      then show ?thesis using n by simp
    next
      case False
      then have "s = current" using s by simp
      with e have "q \<in> set ?ns" "cellAt board q = Stone color"
        using ns_iff by (auto simp: chainEdge_def)
      then show ?thesis using n by auto
    qed
  qed
  have 6: "set libs' = {l. onBoard board l \<and> cellAt board l = Null
              \<and> (\<exists>s \<in> set (stns @ [current]). adjacent s l)}"
    unfolding l(1) li by (auto simp: ns_iff)
  have 7: "distinct libs'" using l dl by simp
  from 1 2 3 4 5 6 7 show ?thesis
    unfolding groupInv_def by blast
qed

lemma groupLoop_inv:
  "groupInv board color seed queue visited stns libs \<Longrightarrow>
     \<exists>stns' libs'. groupLoop board color queue visited stns libs
                      = \<lparr>stones = stns', liberties = libs'\<rparr>
        \<and> groupInv board color seed [] stns' stns' libs'"
proof (induction board color queue visited stns libs rule: groupLoop.induct)
  case (1 board color visited stns libs)
  then show ?case by (auto simp: groupInv_def)
next
  case (2 board color current queue visited stns libs)
  obtain libs' visited' queue' where
    vn: "visitNeighbors board color (getNeighbors board (fst current) (snd current))
            (libs, visited, queue) = (libs', visited', queue')"
    by (metis prod_cases3)
  from groupInv_step[OF "2.prems" vn]
  have "groupInv board color seed queue' visited' (stns @ [current]) libs'" .
  from "2.IH"[of libs' "(visited', queue')" visited' queue', OF vn[symmetric] refl this] vn
  show ?case by simp
qed

lemma groupInv_final:
  assumes "groupInv board color seed [] stns stns libs"
  shows "set stns = {q. (seed, q) \<in> (chainEdge board color)\<^sup>*}"
proof -
  from assms have s: "seed \<in> set stns"
    and r: "\<forall>p \<in> set stns. (seed, p) \<in> (chainEdge board color)\<^sup>*"
    and c: "\<forall>s \<in> set stns. \<forall>q. (s, q) \<in> chainEdge board color \<longrightarrow> q \<in> set stns"
    by (auto simp: groupInv_def)
  have "q \<in> set stns" if "(seed, q) \<in> (chainEdge board color)\<^sup>*" for q
    using that by (induction rule: rtrancl_induct) (use s c in auto)
  with r show ?thesis by auto
qed

lemma floodFill_correct:
  assumes "onBoard board p" "cellAt board p = Stone color"
  shows "set (stones (floodFill board color p)) = groupSet board p"
    and "distinct (stones (floodFill board color p))"
    and "set (liberties (floodFill board color p)) = libertySet board p"
    and "distinct (liberties (floodFill board color p))"
proof -
  have "groupInv board color p [p] [p] [] []"
    using assms by (auto simp: groupInv_def)
  from groupLoop_inv[OF this] obtain stns libs where
    g: "floodFill board color p = \<lparr>stones = stns, liberties = libs\<rparr>"
    and i: "groupInv board color p [] stns stns libs"
    by (auto simp: floodFill_def)
  from groupInv_final[OF i] have st: "set stns = groupSet board p"
    using assms by (simp add: groupSet_def)
  show "set (stones (floodFill board color p)) = groupSet board p"
    using g st by simp
  show "distinct (stones (floodFill board color p))"
    using g i by (simp add: groupInv_def)
  show "set (liberties (floodFill board color p)) = libertySet board p"
    using g i st by (simp add: groupInv_def libertySet_def)
  show "distinct (liberties (floodFill board color p))"
    using g i by (simp add: groupInv_def)
qed


lemma readCell_row:
  "0 \<le> y \<Longrightarrow> y < int (length board) \<Longrightarrow> readCell board x y = Inr (cellAt board (x, y))"
  by (simp add: readCell_def cellAt_def)

lemma readCell_no_row:
  "y < 0 \<or> y \<ge> int (length board) \<Longrightarrow> readCell board x y = Inl TypeError"
  by (auto simp: readCell_def)

lemma cellAt_outside_row:
  assumes "squareBoard board" "0 \<le> y" "y < int (length board)"
    and "x < 0 \<or> x \<ge> int (length board)"
  shows "cellAt board (x, y) = Undefined"
proof -
  have "board ! nat y \<in> set board" using assms(2,3) by simp
  then have "length (board ! nat y) = length board"
    using assms(1) by (simp add: squareBoard_def)
  then show ?thesis using assms(2,3,4) by (auto simp: cellAt_def rowAt_def)
qed

subsection \<open>Dead stones\<close>

lemma markDead_rows:
  "\<forall>p \<in> set ds. 0 \<le> snd p \<and> snd p < int (length board) \<Longrightarrow>
     markDead board ds (sb, bd, wd) =
       Inr (fold (\<lambda>p b. setCell b p Null) ds sb,
            bd + length (filter (\<lambda>p. cellAt board p = Stone Black) ds),
            wd + length (filter (\<lambda>p. cellAt board p = Stone White) ds))"
proof (induction ds arbitrary: sb bd wd)
  case Nil
  then show ?case by simp
next
  case (Cons p ds)
  then have r: "readCell board (fst p) (snd p) = Inr (cellAt board p)"
    using readCell_row[of "snd p" board "fst p"] by simp
  from Cons.prems have "\<forall>p \<in> set ds. 0 \<le> snd p \<and> snd p < int (length board)" by simp
  from Cons.IH[OF this] r show ?case by simp
qed

lemma markDead_Inr_rows:
  "markDead board ds st = Inr res \<Longrightarrow> \<forall>p \<in> set ds. 0 \<le> snd p \<and> snd p < int (length board)"
proof (induction ds arbitrary: st)
  case Nil
  then show ?case by simp
next
  case (Cons p ds)
  obtain sb bd wd where st: "st = (sb, bd, wd)" by (cases st) auto
  show ?case
  proof (cases "0 \<le> snd p \<and> snd p < int (length board)")
    case True
    then have "readCell board (fst p) (snd p) = Inr (cellAt board p)"
      using readCell_row[of "snd p" board "fst p"] by simp
    with Cons.prems st obtain st' where "markDead board ds st' = Inr res" by simp
    from Cons.IH[OF this] True show ?thesis by simp
  next
    case False
    then have "readCell board (fst p) (snd p) = Inl TypeError" by (auto simp: readCell_def)
    with Cons.prems st show ?thesis by simp
  qed
qed

lemma calculateFinalScore_rows:
  assumes "\<forall>p \<in> set ds. 0 \<le> snd p \<and> snd p < int (length board)"
  shows "calculateFinalScore board ds caps k =
           Inr (scoreOf (fst (snd (scanBoard (length board) (scoreView board ds))))
                        (snd (snd (scanBoard (length board) (scoreView board ds))))
                        (length (filter (\<lambda>p. cellAt board p = Stone Black) ds))
                        (length (filter (\<lambda>p. cellAt board p = Stone White) ds)) caps k)"
  unfolding calculateFinalScore_def markDead_rows[OF assms] scoreView_def scoreOf_def
  by (simp add: Let_def split: prod.splits)

lemma calculateFinalScore_Inr:
  assumes "calculateFinalScore board ds caps k = Inr r"
  shows "\<forall>p \<in> set ds. 0 \<le> snd p \<and> snd p < int (length board)"
proof -
  from assms obtain res where "markDead board ds (cloneBoard board, 0, 0) = Inr res"
    unfolding calculateFinalScore_def by (auto split: sum.splits)
  then show ?thesis by (rule markDead_Inr_rows)
qed

section \<open>Boards under assignment\<close>

lemma cloneBoard_id: "cloneBoard board = board"
  by (simp add: cloneBoard_def)

lemma length_setCell: "length (setCell board p v) = length board"
  by (simp add: setCell_def)

lemma onBoard_setCell: "onBoard (setCell board p v) q = onBoard board q"
  by (simp add: onBoard_def length_setCell)

lemma onBoard_length: "length b1 = length b2 \<Longrightarrow> onBoard b1 q = onBoard b2 q"
  by (simp add: onBoard_def)

lemma squareBoard_row:
  "squareBoard board \<Longrightarrow> i < length board \<Longrightarrow> length (board ! i) = length board"
  by (simp add: squareBoard_def)

lemma squareBoard_setCell:
  assumes "squareBoard board" "onBoard board p"
  shows "squareBoard (setCell board p v)"
proof -
  let ?i = "nat (snd p)"
  have i: "?i < length board" using assms(2) by (simp add: onBoard_def nat_less_iff)
  have len: "length (board ! ?i) = length board" using assms(1) i by (rule squareBoard_row)
  have x: "0 \<le> fst p" "fst p < int (length (board ! ?i))"
    using assms(2) len by (simp_all add: onBoard_def)
  have r: "length (rowSet (board ! ?i) (fst p) v) = length board"
    using x len by (simp add: rowSet_def)
  have "set (board[?i := rowSet (board ! ?i) (fst p) v])
          \<subseteq> insert (rowSet (board ! ?i) (fst p) v) (set board)"
    by (rule set_update_subset_insert)
  then show ?thesis
    using assms r by (auto simp: squareBoard_def setCell_def onBoard_def)
qed

lemma cellAt_setCell:
  assumes "squareBoard board" "onBoard board p"
  shows "cellAt (setCell board p v) q = (if q = p then v else cellAt board q)"
proof -
  let ?i = "nat (snd p)"
  have i: "?i < length board" and y: "0 \<le> snd p" "snd p < int (length board)"
    using assms(2) by (simp_all add: onBoard_def nat_less_iff)
  have len: "length (board ! ?i) = length board" using assms(1) i by (rule squareBoard_row)
  have x: "0 \<le> fst p" "nat (fst p) < length (board ! ?i)"
    using assms(2) len by (simp_all add: onBoard_def nat_less_iff)
  have x': "fst p < int (length (board ! ?i))"
    using assms(2) len by (simp add: onBoard_def)
  have s: "setCell board p v = board[?i := (board ! ?i)[nat (fst p) := v]]"
    using x x' y by (simp add: setCell_def rowSet_def)
  have row: "cellAt (setCell board p v) q =
      (if 0 \<le> snd q \<and> snd q < int (length board)
       then rowAt (if nat (snd q) = ?i then (board ! ?i)[nat (fst p) := v]
                   else board ! nat (snd q)) (fst q)
       else Undefined)"
    unfolding s cellAt_def using i by (auto simp: nth_list_update nat_less_iff)
  show ?thesis
  proof (cases "q = p")
    case True
    then show ?thesis unfolding row using x x' y by (simp add: rowAt_def)
  next
    case False
    then have "snd q \<noteq> snd p \<or> fst q \<noteq> fst p" by (auto simp: prod_eq_iff)
    then show ?thesis
    proof
      assume "snd q \<noteq> snd p"
      then have "0 \<le> snd q \<Longrightarrow> nat (snd q) \<noteq> ?i" using y by simp
      then show ?thesis unfolding row using False by (auto simp: cellAt_def)
    next
      assume "fst q \<noteq> fst p"
      then have "0 \<le> fst q \<Longrightarrow> nat (fst q) \<noteq> nat (fst p)" using x by simp
      then show ?thesis unfolding row using False by (auto simp: cellAt_def rowAt_def)
    qed
  qed
qed

lemma cellAt_off_board:
  assumes "squareBoard board" "\<not> onBoard board q"
  shows "cellAt board q = Undefined"
proof (cases "0 \<le> snd q \<and> snd q < int (length board)")
  case True
  with assms(2) have "fst q < 0 \<or> fst q \<ge> int (length board)" by (auto simp: onBoard_def)
  from cellAt_outside_row[OF assms(1) _ _ this, of "snd q"] True show ?thesis by simp
next
  case False
  then show ?thesis by (auto simp: cellAt_def)
qed

lemma removeStones_spec:
  assumes "squareBoard nb" "\<forall>s \<in> set ss. onBoard nb s"
  shows "\<exists>nb'. removeStones ss (nb, cnt) = (nb', cnt + length ss) \<and> squareBoard nb'
            \<and> length nb' = length nb
            \<and> (\<forall>q. cellAt nb' q = (if q \<in> set ss then Null else cellAt nb q))"
  using assms
proof (induction ss arbitrary: nb cnt)
  case Nil
  then show ?case by simp
next
  case (Cons s ss)
  let ?nb1 = "setCell nb s Null"
  have sq: "squareBoard ?nb1" using Cons.prems by (simp add: squareBoard_setCell)
  have ob: "\<forall>s \<in> set ss. onBoard ?nb1 s" using Cons.prems by (simp add: onBoard_setCell)
  from Cons.IH[OF sq ob, of "cnt + 1"] obtain nb' where
    r: "removeStones ss (?nb1, cnt + 1) = (nb', cnt + 1 + length ss)"
    and s: "squareBoard nb'" "length nb' = length ?nb1"
    and c: "\<forall>q. cellAt nb' q = (if q \<in> set ss then Null else cellAt ?nb1 q)"
    by blast
  have "\<forall>q. cellAt nb' q = (if q \<in> set (s # ss) then Null else cellAt nb q)"
    using c Cons.prems by (simp add: cellAt_setCell)
  with r s show ?case by (simp add: length_setCell)
qed

section \<open>Groups as connected components\<close>

lemma adjacent_sym: "adjacent p q \<Longrightarrow> adjacent q p"
  unfolding adjacent_def by arith

lemma chainEdge_sym: "sym (chainEdge board c)"
  by (auto simp: sym_def chainEdge_def adjacent_sym)

lemma chain_sym: "(p, q) \<in> (chainEdge board c)\<^sup>* \<Longrightarrow> (q, p) \<in> (chainEdge board c)\<^sup>*"
  by (rule symD[OF sym_rtrancl[OF chainEdge_sym]])

lemma chain_target:
  "(p, q) \<in> (chainEdge board c)\<^sup>* \<Longrightarrow> q = p \<or> (onBoard board q \<and> cellAt board q = Stone c)"
  by (induction rule: rtrancl_induct) (auto simp: chainEdge_def)

lemma groupSet_stone:
  "cellAt board p = Stone c \<Longrightarrow> groupSet board p = {q. (p, q) \<in> (chainEdge board c)\<^sup>*}"
  by (simp add: groupSet_def)

lemma groupSet_self: "cellAt board p = Stone c \<Longrightarrow> p \<in> groupSet board p"
  by (simp add: groupSet_stone)

lemma groupSet_colour:
  "cellAt board p = Stone c \<Longrightarrow> q \<in> groupSet board p \<Longrightarrow> cellAt board q = Stone c"
  using chain_target[of p q board c] by (auto simp: groupSet_stone)

lemma groupSet_onBoard:
  "cellAt board p = Stone c \<Longrightarrow> onBoard board p \<Longrightarrow> q \<in> groupSet board p \<Longrightarrow> onBoard board q"
  using chain_target[of p q board c] by (auto simp: groupSet_stone)

lemma groupSet_same:
  assumes "cellAt board p = Stone c" "q \<in> groupSet board p"
  shows "groupSet board q = groupSet board p"
proof -
  have cq: "cellAt board q = Stone c" using assms by (rule groupSet_colour)
  have pq: "(p, q) \<in> (chainEdge board c)\<^sup>*" using assms by (simp add: groupSet_stone)
  then have qp: "(q, p) \<in> (chainEdge board c)\<^sup>*" by (rule chain_sym)
  show ?thesis
    unfolding groupSet_stone[OF cq] groupSet_stone[OF assms(1)]
    using pq qp by (auto intro: rtrancl_trans)
qed

lemma libertySet_same:
  "cellAt board p = Stone c \<Longrightarrow> q \<in> groupSet board p \<Longrightarrow> libertySet board q = libertySet board p"
  by (simp add: libertySet_def groupSet_same)

lemma groupSet_closed:
  assumes "cellAt board p = Stone c" "onBoard board p" "q \<in> groupSet board p"
    and "adjacent q r" "onBoard board r" "cellAt board r = Stone c"
  shows "r \<in> groupSet board p"
proof -
  have "onBoard board q" "cellAt board q = Stone c"
    using assms(1-3) groupSet_onBoard groupSet_colour by blast+
  then have "(q, r) \<in> chainEdge board c" using assms(4-6) by (simp add: chainEdge_def)
  moreover have "(p, q) \<in> (chainEdge board c)\<^sup>*" using assms(1,3) by (simp add: groupSet_stone)
  ultimately show ?thesis using assms(1) by (simp add: groupSet_stone)
qed

lemma onBoard_validPoints: "validPoints board = {p. onBoard board p}"
  by (simp add: validPoints_def isValidPoint_onBoard)

lemma groupSet_finite:
  assumes "cellAt board p = Stone c" "onBoard board p"
  shows "finite (groupSet board p)"
proof -
  have "groupSet board p \<subseteq> validPoints board"
    using groupSet_onBoard[OF assms] by (auto simp: onBoard_validPoints)
  then show ?thesis using validPoints_finite by (rule finite_subset)
qed

text \<open>A group survives on any board that keeps its stones, and gains nothing on a board
  with no new stone of its colour.\<close>

lemma groupSet_kept:
  assumes c: "cellAt b1 p = Stone c" and len: "length b1 = length b2"
    and keep: "\<forall>q \<in> groupSet b1 p. cellAt b2 q = Stone c"
  shows "groupSet b1 p \<subseteq> groupSet b2 p"
proof
  fix q assume "q \<in> groupSet b1 p"
  then have "(p, q) \<in> (chainEdge b1 c)\<^sup>*" using c by (simp add: groupSet_stone)
  then have "(p, q) \<in> (chainEdge b2 c)\<^sup>* \<and> q \<in> groupSet b1 p"
  proof (induction rule: rtrancl_induct)
    case base
    show ?case using c by (simp add: groupSet_self)
  next
    case (step q r)
    then have qr: "(q, r) \<in> chainEdge b1 c" and pq: "(p, q) \<in> (chainEdge b1 c)\<^sup>*" by simp_all
    then have r: "r \<in> groupSet b1 p" using c by (simp add: groupSet_stone)
    have "(q, r) \<in> chainEdge b2 c"
      using qr keep r step.IH onBoard_length[OF len] by (auto simp: chainEdge_def)
    with step.IH r show ?case by auto
  qed
  moreover have "cellAt b2 p = Stone c" using keep c groupSet_self by blast
  ultimately show "q \<in> groupSet b2 p" by (simp add: groupSet_stone)
qed

lemma groupSet_no_new:
  assumes c1: "cellAt b1 p = Stone c" and c2: "cellAt b2 p = Stone c"
    and len: "length b1 = length b2"
    and sub: "\<forall>q. cellAt b2 q = Stone c \<longrightarrow> cellAt b1 q = Stone c"
  shows "groupSet b2 p \<subseteq> groupSet b1 p"
proof -
  have "chainEdge b2 c \<subseteq> chainEdge b1 c"
    using sub onBoard_length[OF len] by (auto simp: chainEdge_def)
  then have "(chainEdge b2 c)\<^sup>* \<subseteq> (chainEdge b1 c)\<^sup>*" by (rule rtrancl_mono)
  then show ?thesis unfolding groupSet_stone[OF c1] groupSet_stone[OF c2] by auto
qed

section \<open>Capture resolution\<close>

lemma capturedGroups_empty: "capturedGroups placed opp {} = {}"
  by (simp add: capturedGroups_def)

lemma capturedGroups_insert:
  "capturedGroups placed opp (insert n D) =
     (if cellAt placed n = Stone opp \<and> libertySet placed n = {} then groupSet placed n else {})
       \<union> capturedGroups placed opp D"
  by (auto simp: capturedGroups_def)

lemma capturedGroups_stone:
  "q \<in> capturedGroups placed opp D \<Longrightarrow> cellAt placed q = Stone opp"
proof -
  assume "q \<in> capturedGroups placed opp D"
  then obtain n where "cellAt placed n = Stone opp" "q \<in> groupSet placed n"
    by (auto simp: capturedGroups_def)
  then show ?thesis by (rule groupSet_colour)
qed

lemma capturedGroups_whole:
  assumes "q \<in> capturedGroups placed opp D"
  shows "groupSet placed q \<subseteq> capturedGroups placed opp D \<and> libertySet placed q = {}"
proof -
  from assms obtain n where n: "n \<in> D" "cellAt placed n = Stone opp" "libertySet placed n = {}"
    "q \<in> groupSet placed n"
    by (auto simp: capturedGroups_def)
  have "groupSet placed q = groupSet placed n" using n(2,4) by (rule groupSet_same)
  moreover have "libertySet placed q = libertySet placed n" using n(2,4) by (rule libertySet_same)
  ultimately show ?thesis using n by (auto simp: capturedGroups_def)
qed

lemma capturedGroups_finite:
  assumes "finite D" "\<forall>n \<in> D. onBoard placed n"
  shows "finite (capturedGroups placed opp D)"
proof -
  have "finite {n \<in> D. cellAt placed n = Stone opp \<and> libertySet placed n = {}}"
    using assms(1) by simp
  moreover have "finite (groupSet placed n)"
    if "n \<in> {n \<in> D. cellAt placed n = Stone opp \<and> libertySet placed n = {}}" for n
    using that assms(2) groupSet_finite[of placed n opp] by simp
  ultimately show ?thesis unfolding capturedGroups_def by (rule finite_UN_I)
qed

text \<open>
  Removing whole captured groups changes neither the stones nor the liberties of an
  opponent stone that is still on the board.
\<close>

lemma uncaptured_group_stable:
  assumes len: "length nb = length placed"
    and view: "\<forall>q. cellAt nb q = (if q \<in> capturedGroups placed opp D then Null else cellAt placed q)"
    and n: "cellAt nb n = Stone opp" "onBoard placed n"
  shows "groupSet nb n = groupSet placed n" and "libertySet nb n = libertySet placed n"
proof -
  let ?C = "capturedGroups placed opp D"
  have v: "cellAt nb q = (if q \<in> ?C then Null else cellAt placed q)" for q
    using view by blast
  have n0: "cellAt placed n = Stone opp" and nC: "n \<notin> ?C"
    using v[of n] n(1) by (simp_all split: if_splits)
  have disj: "q \<notin> ?C" if "q \<in> groupSet placed n" for q
  proof
    assume "q \<in> ?C"
    then have "groupSet placed q \<subseteq> ?C" using capturedGroups_whole by blast
    moreover have "groupSet placed q = groupSet placed n" using n0 that by (rule groupSet_same)
    ultimately show False using nC groupSet_self[OF n0] by blast
  qed
  have keep: "\<forall>q \<in> groupSet placed n. cellAt nb q = Stone opp"
    using disj v groupSet_colour[OF n0] by simp
  have 1: "groupSet placed n \<subseteq> groupSet nb n"
    using n0 len[symmetric] keep by (rule groupSet_kept)
  have "\<forall>q. cellAt nb q = Stone opp \<longrightarrow> cellAt placed q = Stone opp"
  proof (intro allI impI)
    fix q assume "cellAt nb q = Stone opp"
    then show "cellAt placed q = Stone opp" using v[of q] by (simp split: if_splits)
  qed
  with n0 n(1) len[symmetric] have 2: "groupSet nb n \<subseteq> groupSet placed n"
    by (rule groupSet_no_new)
  from 1 2 show g: "groupSet nb n = groupSet placed n" by blast
  have "cellAt nb l = Null \<longleftrightarrow> cellAt placed l = Null"
    if l: "onBoard placed l" "s \<in> groupSet placed n" "adjacent s l" for l s
  proof
    assume e: "cellAt nb l = Null"
    show "cellAt placed l = Null"
    proof (cases "l \<in> ?C")
      case True
      then have "cellAt placed l = Stone opp" by (rule capturedGroups_stone)
      with n0 n(2) l have "l \<in> groupSet placed n" by (auto intro: groupSet_closed)
      with disj True show ?thesis by blast
    next
      case False
      with v[of l] e show ?thesis by simp
    qed
  next
    assume e: "cellAt placed l = Null"
    then have "l \<notin> ?C" using capturedGroups_stone[of l placed opp D] by auto
    with v[of l] e show "cellAt nb l = Null" by simp
  qed
  then show "libertySet nb n = libertySet placed n"
    unfolding libertySet_def g using onBoard_length[OF len] by auto
qed

lemma getGroup_stone:
  assumes "onBoard board p" "cellAt board p = Stone c"
  shows "getGroup board (fst p) (snd p) = Inr (floodFill board c p)"
proof -
  have "isValidPoint board (fst p) (snd p)" using assms(1) by (simp add: isValidPoint_onBoard)
  then have "readCell board (fst p) (snd p) = Inr (cellAt board p)"
    using readCell_valid[of board "fst p" "snd p"] by simp
  then show ?thesis using assms(2) by (simp add: getGroup_def)
qed

lemma captureNeighbors_spec:
  assumes "squareBoard nb" "length nb = length placed"
    and "\<forall>q. cellAt nb q = (if q \<in> capturedGroups placed opp D then Null else cellAt placed q)"
    and "cnt = card (capturedGroups placed opp D)"
    and "finite D" "\<forall>n \<in> D. onBoard placed n"
    and "\<forall>n \<in> set ns. onBoard placed n"
  shows "\<exists>nb'. captureNeighbors opp ns (nb, cnt)
                  = Inr (nb', card (capturedGroups placed opp (D \<union> set ns)))
          \<and> squareBoard nb' \<and> length nb' = length placed
          \<and> (\<forall>q. cellAt nb' q = (if q \<in> capturedGroups placed opp (D \<union> set ns) then Null
                                  else cellAt placed q))"
  using assms
proof (induction ns arbitrary: nb cnt D)
  case Nil
  then show ?case by simp
next
  case (Cons n ns)
  let ?C = "capturedGroups placed opp D"
  let ?C' = "capturedGroups placed opp (insert n D)"
  have sq: "squareBoard nb" and len: "length nb = length placed"
    and view: "\<forall>q. cellAt nb q = (if q \<in> ?C then Null else cellAt placed q)"
    and cnt: "cnt = card ?C" and fin: "finite D" and obD: "\<forall>n \<in> D. onBoard placed n"
    and obn: "onBoard placed n" and obns: "\<forall>n \<in> set ns. onBoard placed n"
    using Cons.prems by simp_all
  have fin': "finite (insert n D)" and obD': "\<forall>m \<in> insert n D. onBoard placed m"
    using fin obD obn by simp_all
  have un: "insert n D \<union> set ns = D \<union> set (n # ns)" by simp
  have finC: "finite ?C" using fin obD by (rule capturedGroups_finite)
  have v: "cellAt nb q = (if q \<in> ?C then Null else cellAt placed q)" for q
    using view by blast
  text \<open>What one iteration does to the board and the count.\<close>
  have step: "\<exists>nb1 cnt1. captureNeighbors opp (n # ns) (nb, cnt) = captureNeighbors opp ns (nb1, cnt1)
      \<and> squareBoard nb1 \<and> length nb1 = length placed
      \<and> (\<forall>q. cellAt nb1 q = (if q \<in> ?C' then Null else cellAt placed q))
      \<and> cnt1 = card ?C'"
  proof (cases "cellAt nb n = Stone opp")
    case True
    have n0: "cellAt placed n = Stone opp" and nC: "n \<notin> ?C"
      using v[of n] True by (simp_all split: if_splits)
    have obn': "onBoard nb n" using obn onBoard_length[OF len] by simp
    have gg: "getGroup nb (fst n) (snd n) = Inr (floodFill nb opp n)"
      using obn' True by (rule getGroup_stone)
    have G: "set (stones (floodFill nb opp n)) = groupSet placed n"
      and dG: "distinct (stones (floodFill nb opp n))"
      and L: "set (liberties (floodFill nb opp n)) = libertySet placed n"
      using floodFill_correct[OF obn' True]
        uncaptured_group_stable[OF len view True obn] by simp_all
    show ?thesis
    proof (cases "libertySet placed n = {}")
      case empty: True
      then have l0: "length (liberties (floodFill nb opp n)) = 0" using L by simp
      have "\<forall>s \<in> set (stones (floodFill nb opp n)). onBoard nb s"
        using G groupSet_onBoard[OF n0 obn] onBoard_length[OF len] by simp
      from removeStones_spec[OF sq this, of cnt] obtain nb1 where
        r: "removeStones (stones (floodFill nb opp n)) (nb, cnt)
              = (nb1, cnt + length (stones (floodFill nb opp n)))"
        and s1: "squareBoard nb1" "length nb1 = length nb"
        and c1: "\<forall>q. cellAt nb1 q = (if q \<in> set (stones (floodFill nb opp n)) then Null
                                       else cellAt nb q)"
        by blast
      have C': "?C' = groupSet placed n \<union> ?C"
        using n0 empty by (simp add: capturedGroups_insert)
      have disj: "groupSet placed n \<inter> ?C = {}"
      proof (rule ccontr)
        assume "groupSet placed n \<inter> ?C \<noteq> {}"
        then obtain q where q: "q \<in> groupSet placed n" "q \<in> ?C" by blast
        then have "groupSet placed q \<subseteq> ?C" using capturedGroups_whole by blast
        moreover have "groupSet placed q = groupSet placed n" using n0 q(1) by (rule groupSet_same)
        ultimately show False using nC groupSet_self[OF n0] by blast
      qed
      have "card ?C' = card (groupSet placed n) + card ?C"
        unfolding C' using disj finC groupSet_finite[OF n0 obn] by (simp add: card_Un_disjoint)
      moreover have "card (groupSet placed n) = length (stones (floodFill nb opp n))"
        using G dG distinct_card by metis
      ultimately have k: "cnt + length (stones (floodFill nb opp n)) = card ?C'"
        using cnt by simp
      have v1: "\<forall>q. cellAt nb1 q = (if q \<in> ?C' then Null else cellAt placed q)"
        using c1 v unfolding C' G by simp
      have "captureNeighbors opp (n # ns) (nb, cnt)
              = captureNeighbors opp ns (nb1, cnt + length (stones (floodFill nb opp n)))"
        using True gg l0 r by simp
      moreover have "length nb1 = length placed" using s1 len by simp
      ultimately show ?thesis using s1(1) v1 k by blast
    next
      case False
      then have l0: "length (liberties (floodFill nb opp n)) \<noteq> 0" using L by auto
      have c: "?C' = ?C" using False by (simp add: capturedGroups_insert)
      have "captureNeighbors opp (n # ns) (nb, cnt) = captureNeighbors opp ns (nb, cnt)"
        using True gg l0 by simp
      then show ?thesis unfolding c using sq len view cnt by blast
    qed
  next
    case False
    have c: "?C' = ?C"
    proof (cases "cellAt placed n = Stone opp \<and> libertySet placed n = {}")
      case True
      with False v[of n] have "n \<in> ?C" by (simp split: if_splits)
      then have "groupSet placed n \<subseteq> ?C" using capturedGroups_whole by blast
      then show ?thesis using True by (auto simp: capturedGroups_insert)
    next
      case False
      then show ?thesis by (auto simp: capturedGroups_insert)
    qed
    have "captureNeighbors opp (n # ns) (nb, cnt) = captureNeighbors opp ns (nb, cnt)"
      using False by simp
    then show ?thesis unfolding c using sq len view cnt by blast
  qed
  then obtain nb1 cnt1 where
    e: "captureNeighbors opp (n # ns) (nb, cnt) = captureNeighbors opp ns (nb1, cnt1)"
    and s1: "squareBoard nb1" "length nb1 = length placed"
    and v1: "\<forall>q. cellAt nb1 q = (if q \<in> ?C' then Null else cellAt placed q)"
    and k1: "cnt1 = card ?C'"
    by blast
  from Cons.IH[OF s1 v1 k1 fin' obD' obns] e show ?case unfolding un by simp
qed

section \<open>The move evaluator against the rules\<close>

lemma opponentOf_neq: "opponentOf player \<noteq> player"
  by (simp add: opponentOf_def)

lemma captured_not_placed:
  assumes "squareBoard board" "onBoard board p"
  shows "p \<notin> captured board p player"
proof
  assume "p \<in> captured board p player"
  then have "cellAt (setCell board p (Stone player)) p = Stone (opponentOf player)"
    unfolding captured_def by (rule capturedGroups_stone)
  then show False using assms opponentOf_neq[of player] by (simp add: cellAt_setCell)
qed

lemma resolveCaptures_spec:
  assumes sq: "squareBoard board" and ob: "onBoard board (x, y)"
  shows "\<exists>nb. resolveCaptures board x y player = Inr (nb, card (captured board (x, y) player))
           \<and> squareBoard nb \<and> length nb = length board
           \<and> (\<forall>q. cellAt nb q = afterMove board (x, y) player q)"
proof -
  let ?placed = "setCell board (x, y) (Stone player)"
  let ?opp = "opponentOf player"
  let ?N = "{n. onBoard board n \<and> adjacent (x, y) n}"
  have sqp: "squareBoard ?placed" using sq ob by (rule squareBoard_setCell)
  have N: "set (getNeighbors ?placed x y) = ?N"
    using getNeighbors_iff[of _ ?placed x y] by (auto simp: onBoard_setCell)
  have obN: "\<forall>n \<in> set (getNeighbors ?placed x y). onBoard ?placed n"
    unfolding N by (simp add: onBoard_setCell)
  have v0: "\<forall>q. cellAt ?placed q =
      (if q \<in> capturedGroups ?placed ?opp {} then Null else cellAt ?placed q)"
    by (simp add: capturedGroups_empty)
  have c0: "(0::nat) = card (capturedGroups ?placed ?opp {})"
    by (simp add: capturedGroups_empty)
  from captureNeighbors_spec[OF sqp refl v0 c0 _ _ obN]
  obtain nb where
    r: "captureNeighbors ?opp (getNeighbors ?placed x y) (?placed, 0)
          = Inr (nb, card (capturedGroups ?placed ?opp ({} \<union> set (getNeighbors ?placed x y))))"
    and s: "squareBoard nb" "length nb = length ?placed"
    and v: "\<forall>q. cellAt nb q =
        (if q \<in> capturedGroups ?placed ?opp ({} \<union> set (getNeighbors ?placed x y)) then Null
         else cellAt ?placed q)"
    by auto
  have C: "capturedGroups ?placed ?opp ({} \<union> set (getNeighbors ?placed x y))
             = captured board (x, y) player"
    unfolding N captured_def by simp
  have o: "(if player = Black then White else Black) = ?opp" by (simp add: opponentOf_def)
  have "resolveCaptures board x y player = Inr (nb, card (captured board (x, y) player))"
    unfolding resolveCaptures_def Let_def cloneBoard_id o using r[unfolded C] .
  moreover have "cellAt nb q = afterMove board (x, y) player q" for q
  proof -
    have "cellAt nb q = (if q \<in> captured board (x, y) player then Null else cellAt ?placed q)"
      using v unfolding C by blast
    then show ?thesis
      using captured_not_placed[OF sq ob, of player]
      by (auto simp: afterMove_def cellAt_setCell[OF sq ob])
  qed
  ultimately show ?thesis using s by (simp add: length_setCell)
qed

lemma afterMove_placed: "afterMove board p player p = Stone player"
  by (simp add: afterMove_def)

text \<open>What \<^verbatim>\<open>attemptMove\<close> returns on an empty point of a square board.\<close>

lemma attemptMove_empty:
  assumes sq: "squareBoard board" and ob: "onBoard board (x, y)"
    and e: "cellAt board (x, y) = Null"
    and r: "resolveCaptures board x y player = Inr (nb, k)"
    and len: "length nb = length board"
    and v: "\<forall>q. cellAt nb q = afterMove board (x, y) player q"
  shows "attemptMove board x y player =
          Inr (if libertySet nb (x, y) = {}
               then \<lparr>valid = False, newBoard = None, capturedCount = None,
                      message = Some ''Suicide move is not allowed.''\<rparr>
               else \<lparr>valid = True, newBoard = Some nb, capturedCount = Some k,
                      message = None\<rparr>)"
proof -
  have rd: "readCell board x y = Inr Null"
    using ob e readCell_valid[of board x y] by (simp add: isValidPoint_onBoard)
  have obn: "onBoard nb (x, y)" using ob onBoard_length[OF len] by simp
  have st: "cellAt nb (x, y) = Stone player"
    using v[rule_format, of "(x, y)"] by (simp add: afterMove_placed)
  have gg: "getGroup nb x y = Inr (floodFill nb player (x, y))"
    using getGroup_stone[OF obn st] by simp
  have "length (liberties (floodFill nb player (x, y))) = 0 \<longleftrightarrow> libertySet nb (x, y) = {}"
    using floodFill_correct(3)[OF obn st] by auto
  then show ?thesis
    unfolding attemptMove_def rd using r gg by simp
qed

lemma attemptMove_valid_empty:
  assumes sq: "squareBoard board" and a: "attemptMove board x y player = Inr r" and va: "valid r"
  shows "onBoard board (x, y) \<and> cellAt board (x, y) = Null"
proof -
  have row: "0 \<le> y \<and> y < int (length board)"
  proof (rule ccontr)
    assume "\<not> ?thesis"
    then have "readCell board x y = Inl TypeError" by (auto simp: readCell_def)
    with a show False by (simp add: attemptMove_def)
  qed
  then have rd: "readCell board x y = Inr (cellAt board (x, y))" by (simp add: readCell_row)
  have e: "cellAt board (x, y) = Null"
  proof (rule ccontr)
    assume "cellAt board (x, y) \<noteq> Null"
    with a rd have "\<not> valid r" by (auto simp: attemptMove_def)
    with va show False by simp
  qed
  have "onBoard board (x, y)"
  proof (rule ccontr)
    assume "\<not> onBoard board (x, y)"
    from cellAt_off_board[OF sq this] e show False by simp
  qed
  with e show ?thesis by simp
qed

lemma exampleBoard_square: "squareBoard exampleBoard"
  by (simp add: squareBoard_def exampleBoard_def)

lemma exampleBoard_move:
  "attemptMove exampleBoard 0 0 Black =
     Inr \<lparr>valid = True, newBoard = Some afterCapture, capturedCount = Some 2, message = None\<rparr>"
  by code_simp

section \<open>Legal moves keep the board legal\<close>

lemma libertySet_witness:
  assumes "cellAt board s = Stone c" "g \<in> groupSet board s" "adjacent g l"
    and "onBoard board l" "cellAt board l = Null"
  shows "libertySet board s \<noteq> {}"
  using assms unfolding libertySet_def by blast

lemma attemptMove_keeps_legal:
  assumes sq: "squareBoard board" and legal: "legalBoard board"
    and ob: "onBoard board (x, y)" and e: "cellAt board (x, y) = Null"
    and len: "length nb = length board"
    and v: "\<forall>q. cellAt nb q = afterMove board (x, y) player q"
    and lib: "libertySet nb (x, y) \<noteq> {}"
  shows "legalBoard nb"
  unfolding legalBoard_def
proof (intro allI impI)
  fix s c
  assume "onBoard nb s \<and> cellAt nb s = Stone c"
  then have obs: "onBoard board s" and cs: "cellAt nb s = Stone c"
    using onBoard_length[OF len] by simp_all
  let ?p = "(x, y)"
  let ?placed = "setCell board ?p (Stone player)"
  let ?opp = "opponentOf player"
  let ?C = "captured board ?p player"
  have vq: "cellAt nb q = afterMove board ?p player q" for q using v by blast
  have pl: "cellAt ?placed q = (if q = ?p then Stone player else cellAt board q)" for q
    by (rule cellAt_setCell[OF sq ob])
  have lenp: "length ?placed = length board" by (rule length_setCell)
  have Cst: "cellAt ?placed q = Stone ?opp" if "q \<in> ?C" for q
    using that unfolding captured_def by (rule capturedGroups_stone)
  have Cboard: "cellAt board q = Stone ?opp \<and> q \<noteq> ?p" if "q \<in> ?C" for q
    using Cst[OF that] pl[of q] opponentOf_neq[of player] by (auto split: if_splits)
  have st: "cellAt nb ?p = Stone player" using vq[of ?p] by (simp add: afterMove_placed)
  have view: "\<forall>q. cellAt nb q =
      (if q \<in> capturedGroups ?placed ?opp {n. onBoard board n \<and> adjacent ?p n} then Null
       else cellAt ?placed q)"
  proof
    fix q
    show "cellAt nb q =
      (if q \<in> capturedGroups ?placed ?opp {n. onBoard board n \<and> adjacent ?p n} then Null
       else cellAt ?placed q)"
      using vq[of q] pl[of q] Cboard[of q] unfolding afterMove_def captured_def by auto
  qed
  have sb: "cellAt board s = Stone c" if "s \<noteq> ?p"
    using cs vq[of s] that by (auto simp: afterMove_def split: if_splits)
  show "libertySet nb s \<noteq> {}"
  proof (cases "s \<in> groupSet nb ?p")
    case True
    with st have "libertySet nb s = libertySet nb ?p" by (rule libertySet_same)
    with lib show ?thesis by simp
  next
    case False
    then have sp: "s \<noteq> ?p" using groupSet_self[OF st] by auto
    have b: "cellAt board s = Stone c" using sb[OF sp] .
    have sC: "s \<notin> ?C" using cs vq[of s] sp by (auto simp: afterMove_def)
    from legal obs b have "libertySet board s \<noteq> {}" unfolding legalBoard_def by blast
    then obtain l g where l: "onBoard board l" "cellAt board l = Null"
      and g: "g \<in> groupSet board s" "adjacent g l"
      unfolding libertySet_def by blast
    have obl: "onBoard nb l" using l(1) onBoard_length[OF len] by simp
    have lC: "l \<notin> ?C" using Cboard[of l] l(2) by auto
    have gb: "cellAt board q = Stone c \<and> q \<noteq> ?p" if "q \<in> groupSet board s" for q
      using groupSet_colour[OF b that] e by auto
    show ?thesis
    proof (cases "c = player")
      case True
      have keep: "\<forall>q \<in> groupSet board s. cellAt nb q = Stone c"
      proof
        fix q assume q: "q \<in> groupSet board s"
        have "q \<notin> ?C" using Cboard[of q] gb[OF q] True opponentOf_neq[of player] by auto
        then show "cellAt nb q = Stone c" using vq[of q] gb[OF q] by (simp add: afterMove_def)
      qed
      have "groupSet board s \<subseteq> groupSet nb s"
        using b len[symmetric] keep by (rule groupSet_kept)
      with g have gn: "g \<in> groupSet nb s" by blast
      show ?thesis
      proof (cases "l = ?p")
        case lp: True
        have "?p \<in> groupSet nb s"
          using cs _ gn _ _ _
        proof (rule groupSet_closed)
          show "onBoard nb s" using obs onBoard_length[OF len] by simp
          show "adjacent g ?p" using g(2) lp by simp
          show "onBoard nb ?p" using ob onBoard_length[OF len] by simp
          show "cellAt nb ?p = Stone c" using st True by simp
        qed
        with cs have "groupSet nb ?p = groupSet nb s" by (rule groupSet_same)
        with False groupSet_self[OF cs] show ?thesis by simp
      next
        case False
        then have "cellAt nb l = Null" using vq[of l] lC l(2) by (simp add: afterMove_def)
        with cs gn g(2) obl show ?thesis by (rule libertySet_witness)
      qed
    next
      case opp: False
      then have co: "c = ?opp" by (cases c; cases player) (auto simp: opponentOf_def)
      have ps: "cellAt ?placed s = Stone ?opp" using pl[of s] sp b co by simp
      have obsp: "onBoard ?placed s" using obs by (simp add: onBoard_setCell)
      have nbs: "cellAt nb s = Stone ?opp" using cs co by simp
      have stable: "libertySet nb s = libertySet ?placed s"
        using uncaptured_group_stable(2)[OF _ view nbs obsp] len lenp by simp
      have keepp: "\<forall>q \<in> groupSet board s. cellAt ?placed q = Stone c"
        using gb pl by simp
      have "groupSet board s \<subseteq> groupSet ?placed s"
        using b lenp[symmetric] keepp by (rule groupSet_kept)
      with g have gp: "g \<in> groupSet ?placed s" by blast
      have "libertySet ?placed s \<noteq> {}"
      proof (cases "l = ?p")
        case False
        then have "cellAt ?placed l = Null" using pl[of l] l(2) by simp
        moreover have "onBoard ?placed l" using l(1) by (simp add: onBoard_setCell)
        ultimately show ?thesis using ps gp g(2) libertySet_witness by blast
      next
        case lp: True
        show ?thesis
        proof
          assume empty: "libertySet ?placed s = {}"
          have "groupSet ?placed g = groupSet ?placed s" using ps gp by (rule groupSet_same)
          moreover have "libertySet ?placed g = libertySet ?placed s"
            using ps gp by (rule libertySet_same)
          moreover have "cellAt ?placed g = Stone ?opp" using ps gp by (rule groupSet_colour)
          moreover have "onBoard board g"
            using groupSet_onBoard[OF ps obsp gp] by (simp add: onBoard_setCell)
          moreover have "adjacent ?p g" using g(2) lp adjacent_sym by simp
          ultimately have "groupSet ?placed s \<subseteq> ?C"
            using empty unfolding captured_def capturedGroups_def by blast
          with groupSet_self[OF ps] sC show False by blast
        qed
      qed
      with stable show ?thesis by simp
    qed
  qed
qed

lemma scanOrder_set: "set (scanOrder n) = {p. 0 \<le> fst p \<and> fst p < int n \<and> 0 \<le> snd p \<and> snd p < int n}"
proof -
  have "(a, b) \<in> set (scanOrder n) \<longleftrightarrow> 0 \<le> a \<and> a < int n \<and> 0 \<le> b \<and> b < int n" for a b
  proof
    assume "(a, b) \<in> set (scanOrder n)"
    then show "0 \<le> a \<and> a < int n \<and> 0 \<le> b \<and> b < int n"
      by (auto simp: scanOrder_def)
  next
    assume r: "0 \<le> a \<and> a < int n \<and> 0 \<le> b \<and> b < int n"
    then have "nat a < n" "nat b < n" "int (nat a) = a" "int (nat b) = b" by auto
    then show "(a, b) \<in> set (scanOrder n)"
      unfolding scanOrder_def
      by (auto intro!: bexI[of _ "nat b"] image_eqI[of _ _ "nat a"])
  qed
  then show ?thesis by auto
qed

lemma scanOrder_onBoard: "set (scanOrder (length board)) = {p. onBoard board p}"
  by (simp add: scanOrder_set onBoard_def)

lemma legalBoard_code: "legalBoard board = legalCheck board"
proof -
  have "liberties (floodFill board c p) \<noteq> [] \<longleftrightarrow> libertySet board p \<noteq> {}"
    if "onBoard board p" "cellAt board p = Stone c" for p c
    using floodFill_correct(3)[OF that] by auto
  then show ?thesis
    unfolding legalBoard_def legalCheck_def list_all_iff scanOrder_onBoard
    by (auto split: Cell.splits)
qed

section \<open>The region fill computes the region and its border\<close>

lemma emptyEdge_sym: "sym (emptyEdge sb)"
  by (auto simp: sym_def emptyEdge_def adjacent_sym)

lemma region_sym: "(p, q) \<in> (emptyEdge sb)\<^sup>* \<Longrightarrow> (q, p) \<in> (emptyEdge sb)\<^sup>*"
  by (rule symD[OF sym_rtrancl[OF emptyEdge_sym]])

lemma regionSet_self: "p \<in> regionSet sb p"
  by (simp add: regionSet_def)

lemma regionSet_same:
  assumes "q \<in> regionSet sb p"
  shows "regionSet sb q = regionSet sb p"
proof -
  have pq: "(p, q) \<in> (emptyEdge sb)\<^sup>*" using assms by (simp add: regionSet_def)
  then have qp: "(q, p) \<in> (emptyEdge sb)\<^sup>*" by (rule region_sym)
  show ?thesis unfolding regionSet_def using pq qp by (auto intro: rtrancl_trans)
qed

lemma region_target:
  "(p, q) \<in> (emptyEdge sb)\<^sup>* \<Longrightarrow> q = p \<or> (onBoard sb q \<and> cellAt sb q = Null)"
  by (induction rule: rtrancl_induct) (auto simp: emptyEdge_def)

lemma regionSet_cells:
  assumes "onBoard sb p" "cellAt sb p = Null" "q \<in> regionSet sb p"
  shows "onBoard sb q \<and> cellAt sb q = Null"
  using region_target[of p q sb] assms by (auto simp: regionSet_def)

lemma regionSet_finite:
  assumes "onBoard sb p" "cellAt sb p = Null"
  shows "finite (regionSet sb p)"
proof -
  have "regionSet sb p \<subseteq> validPoints sb"
    using regionSet_cells[OF assms] by (auto simp: onBoard_validPoints)
  then show ?thesis using validPoints_finite by (rule finite_subset)
qed

lemma borderColours_same: "q \<in> regionSet sb p \<Longrightarrow> borderColours sb q = borderColours sb p"
  by (simp add: borderColours_def regionSet_same)

lemma fillNeighbors_spec:
  "fillNeighbors sb ns (v, q, r, t) = (v', q', r', t') \<Longrightarrow>
     (\<exists>new. v' = v @ new \<and> q' = q @ new \<and> r' = r @ new \<and> distinct new
        \<and> set new = {n \<in> set ns. cellAt sb n = Null \<and> n \<notin> set v})
     \<and> set t' = set t \<union> cellAt sb ` {n \<in> set ns. cellAt sb n \<noteq> Null}
     \<and> (distinct t \<longrightarrow> distinct t')"
proof (induction ns arbitrary: v q r t)
  case Nil
  then show ?case by simp
next
  case (Cons n ns)
  show ?case
  proof (cases "cellAt sb n = Null")
    case True
    show ?thesis
    proof (cases "n \<in> set v")
      case False
      with True Cons.prems
      have "fillNeighbors sb ns (v @ [n], q @ [n], r @ [n], t) = (v', q', r', t')"
        by (simp add: setAdd_def)
      from Cons.IH[OF this] obtain new where
        n: "v' = (v @ [n]) @ new" "q' = (q @ [n]) @ new" "r' = (r @ [n]) @ new" "distinct new"
           "set new = {m \<in> set ns. cellAt sb m = Null \<and> m \<notin> set (v @ [n])}"
        and t: "set t' = set t \<union> cellAt sb ` {m \<in> set ns. cellAt sb m \<noteq> Null}"
           "distinct t \<longrightarrow> distinct t'"
        by blast
      from n True False
      have "v' = v @ (n # new) \<and> q' = q @ (n # new) \<and> r' = r @ (n # new)
            \<and> distinct (n # new)
            \<and> set (n # new) = {m \<in> set (n # ns). cellAt sb m = Null \<and> m \<notin> set v}"
        by auto
      then have "\<exists>new. v' = v @ new \<and> q' = q @ new \<and> r' = r @ new \<and> distinct new
            \<and> set new = {m \<in> set (n # ns). cellAt sb m = Null \<and> m \<notin> set v}"
        by blast
      moreover from t True
      have "set t' = set t \<union> cellAt sb ` {m \<in> set (n # ns). cellAt sb m \<noteq> Null}"
        by auto
      ultimately show ?thesis using t(2) by blast
    next
      case inV: True
      with True Cons.prems have "fillNeighbors sb ns (v, q, r, t) = (v', q', r', t')"
        by simp
      from Cons.IH[OF this] True inV show ?thesis by auto
    qed
  next
    case False
    with Cons.prems
    have "fillNeighbors sb ns (v, q, r, setAdd (cellAt sb n) t) = (v', q', r', t')"
      by simp
    from Cons.IH[OF this] obtain new where
      n: "v' = v @ new" "q' = q @ new" "r' = r @ new" "distinct new"
         "set new = {m \<in> set ns. cellAt sb m = Null \<and> m \<notin> set v}"
      and t: "set t' = set (setAdd (cellAt sb n) t)
                \<union> cellAt sb ` {m \<in> set ns. cellAt sb m \<noteq> Null}"
         "distinct (setAdd (cellAt sb n) t) \<longrightarrow> distinct t'"
      by blast
    from n False have "\<exists>new. v' = v @ new \<and> q' = q @ new \<and> r' = r @ new \<and> distinct new
          \<and> set new = {m \<in> set (n # ns). cellAt sb m = Null \<and> m \<notin> set v}"
      by auto
    moreover from t(1) False
    have "set t' = set t \<union> cellAt sb ` {m \<in> set (n # ns). cellAt sb m \<noteq> Null}"
      by (auto simp: set_setAdd)
    moreover have "distinct t \<longrightarrow> distinct t'" using t(2) by (simp add: distinct_setAdd)
    ultimately show ?thesis by blast
  qed
qed

lemma regionInv_step:
  assumes inv: "regionInv sb seed V0 processed (cur # queue) visited region touching"
    and fn: "fillNeighbors sb (getNeighbors sb (fst cur) (snd cur))
               (visited, queue, region, touching) = (visited', queue', region', touching')"
  shows "regionInv sb seed V0 (processed @ [cur]) queue' visited' region' touching'"
proof -
  let ?ns = "getNeighbors sb (fst cur) (snd cur)"
  from fillNeighbors_spec[OF fn] obtain new where
    n: "visited' = visited @ new" "queue' = queue @ new" "region' = region @ new"
       "distinct new"
       "set new = {n \<in> set ?ns. cellAt sb n = Null \<and> n \<notin> set visited}"
    and t: "set touching' = set touching \<union> cellAt sb ` {n \<in> set ?ns. cellAt sb n \<noteq> Null}"
       "distinct touching \<longrightarrow> distinct touching'"
    by blast
  from inv have v: "visited = V0 @ region"
    and rg: "region = processed @ cur # queue"
    and d: "distinct visited"
    and s: "seed \<in> set region"
    and r: "\<forall>p \<in> set region. (seed, p) \<in> (emptyEdge sb)\<^sup>* \<and> onBoard sb p \<and> cellAt sb p = Null"
    and c: "\<forall>s \<in> set processed. \<forall>q. (s, q) \<in> emptyEdge sb \<longrightarrow> q \<in> set visited"
    and to: "set touching = cellAt sb ` {n. onBoard sb n \<and> cellAt sb n \<noteq> Null
                 \<and> (\<exists>s \<in> set processed. adjacent s n)}"
    and dt: "distinct touching"
    unfolding regionInv_def by blast+
  have cur: "cur \<in> set region" using rg by simp
  have ns_iff: "\<And>q. q \<in> set ?ns \<longleftrightarrow> onBoard sb q \<and> adjacent cur q"
    using getNeighbors_iff[of _ sb "fst cur" "snd cur"] by simp
  have 1: "visited' = V0 @ region'" using n v by simp
  have 2: "region' = (processed @ [cur]) @ queue'" using n rg by simp
  have 3: "distinct visited'" using n d by auto
  have 4: "seed \<in> set region'" using s n by simp
  have 5: "\<forall>p \<in> set region'. (seed, p) \<in> (emptyEdge sb)\<^sup>* \<and> onBoard sb p \<and> cellAt sb p = Null"
  proof
    fix p assume "p \<in> set region'"
    then consider "p \<in> set region" | "p \<in> set new" using n by auto
    then show "(seed, p) \<in> (emptyEdge sb)\<^sup>* \<and> onBoard sb p \<and> cellAt sb p = Null"
    proof cases
      case 1
      then show ?thesis using r by blast
    next
      case 2
      then have p: "onBoard sb p" "adjacent cur p" "cellAt sb p = Null"
        using n(5) ns_iff by auto
      with r cur have "(cur, p) \<in> emptyEdge sb" by (auto simp: emptyEdge_def)
      moreover have "(seed, cur) \<in> (emptyEdge sb)\<^sup>*" using r cur by blast
      ultimately show ?thesis using p by auto
    qed
  qed
  have 6: "\<forall>s \<in> set (processed @ [cur]). \<forall>q. (s, q) \<in> emptyEdge sb \<longrightarrow> q \<in> set visited'"
  proof (intro ballI allI impI)
    fix s q assume s: "s \<in> set (processed @ [cur])" and e: "(s, q) \<in> emptyEdge sb"
    show "q \<in> set visited'"
    proof (cases "s \<in> set processed")
      case True
      with c e have "q \<in> set visited" by blast
      then show ?thesis using n by simp
    next
      case False
      then have "s = cur" using s by simp
      with e have "q \<in> set ?ns" "cellAt sb q = Null"
        using ns_iff by (auto simp: emptyEdge_def)
      then show ?thesis using n by auto
    qed
  qed
  have "{n. onBoard sb n \<and> cellAt sb n \<noteq> Null \<and> (\<exists>s \<in> set (processed @ [cur]). adjacent s n)}
          = {n. onBoard sb n \<and> cellAt sb n \<noteq> Null \<and> (\<exists>s \<in> set processed. adjacent s n)}
            \<union> {n \<in> set ?ns. cellAt sb n \<noteq> Null}"
    using ns_iff by auto
  then have 7: "set touching' = cellAt sb ` {n. onBoard sb n \<and> cellAt sb n \<noteq> Null
                 \<and> (\<exists>s \<in> set (processed @ [cur]). adjacent s n)}"
    unfolding t(1) to by (simp add: image_Un)
  have 8: "distinct touching'" using t dt by simp
  from 1 2 3 4 5 6 7 8 show ?thesis
    unfolding regionInv_def by blast
qed

lemma regionLoop_inv:
  "regionInv sb seed V0 processed queue visited region touching \<Longrightarrow>
     \<exists>processed' visited' region' touching'.
        regionLoop sb queue visited region touching = (visited', region', touching')
        \<and> regionInv sb seed V0 processed' [] visited' region' touching'"
proof (induction sb queue visited region touching arbitrary: processed rule: regionLoop.induct)
  case (1 sb visited region touching)
  then show ?case by auto
next
  case (2 sb cur queue visited region touching)
  obtain visited' queue' region' touching' where
    fn: "fillNeighbors sb (getNeighbors sb (fst cur) (snd cur))
            (visited, queue, region, touching) = (visited', queue', region', touching')"
    by (metis prod_cases4)
  from regionInv_step[OF "2.prems" fn]
  have "regionInv sb seed V0 (processed @ [cur]) queue' visited' region' touching'" .
  from "2.IH"[of visited' "(queue', region', touching')" queue' "(region', touching')"
       region' touching', OF fn[symmetric] refl refl this] fn
  show ?case by simp
qed

lemma regionFill_correct:
  assumes closed: "\<forall>v \<in> set V0. \<forall>q. (v, q) \<in> emptyEdge sb \<longrightarrow> q \<in> set V0"
    and dV: "distinct V0"
    and seed: "onBoard sb p" "cellAt sb p = Null" "p \<notin> set V0"
  shows "\<exists>region touching.
           regionLoop sb [p] (setAdd p V0) [p] [] = (V0 @ region, region, touching)
         \<and> set region = regionSet sb p \<and> distinct region \<and> set region \<inter> set V0 = {}
         \<and> set touching = cellAt sb ` {n. onBoard sb n \<and> cellAt sb n \<noteq> Null
                                           \<and> (\<exists>s \<in> regionSet sb p. adjacent s n)}
         \<and> distinct touching"
proof -
  have "regionInv sb p V0 [] [p] (V0 @ [p]) [p] []"
    using dV seed by (simp add: regionInv_def)
  from regionLoop_inv[OF this] obtain processed visited region touching where
    l: "regionLoop sb [p] (V0 @ [p]) [p] [] = (visited, region, touching)"
    and i: "regionInv sb p V0 processed [] visited region touching"
    by blast
  from i have v: "visited = V0 @ region" and pr: "region = processed @ []"
    and d0: "distinct visited"
    and s: "p \<in> set region"
    and r0: "\<forall>q \<in> set region. (p, q) \<in> (emptyEdge sb)\<^sup>* \<and> onBoard sb q \<and> cellAt sb q = Null"
    and c0: "\<forall>s \<in> set processed. \<forall>q. (s, q) \<in> emptyEdge sb \<longrightarrow> q \<in> set visited"
    and to0: "set touching = cellAt sb ` {n. onBoard sb n \<and> cellAt sb n \<noteq> Null
                 \<and> (\<exists>s \<in> set processed. adjacent s n)}"
    and dt: "distinct touching"
    unfolding regionInv_def by blast+
  have pr': "processed = region" using pr by simp
  have d: "distinct (V0 @ region)" using d0 v by simp
  have r: "\<forall>q \<in> set region. (p, q) \<in> (emptyEdge sb)\<^sup>*" using r0 by blast
  have c: "\<forall>s \<in> set region. \<forall>q. (s, q) \<in> emptyEdge sb \<longrightarrow> q \<in> set (V0 @ region)"
    using c0 unfolding pr' v .
  have to: "set touching = cellAt sb ` {n. onBoard sb n \<and> cellAt sb n \<noteq> Null
                 \<and> (\<exists>s \<in> set region. adjacent s n)}"
    using to0 unfolding pr' .
  have out: "q \<notin> set V0" if "q \<in> regionSet sb p" for q
  proof
    assume q: "q \<in> set V0"
    have "(q, p) \<in> (emptyEdge sb)\<^sup>*" using that by (simp add: regionSet_def region_sym)
    then have "p \<in> set V0"
      by (induction rule: rtrancl_induct) (use q closed in auto)
    with seed(3) show False by simp
  qed
  have "q \<in> set region" if "(p, q) \<in> (emptyEdge sb)\<^sup>*" for q
    using that
  proof (induction rule: rtrancl_induct)
    case base
    show ?case using s .
  next
    case (step q t)
    then have "t \<in> set (V0 @ region)" using c by blast
    moreover have "t \<in> regionSet sb p" using step by (simp add: regionSet_def)
    ultimately show ?case using out by auto
  qed
  with r have reg: "set region = regionSet sb p" by (auto simp: regionSet_def)
  have "regionLoop sb [p] (setAdd p V0) [p] [] = (V0 @ region, region, touching)"
    using l v seed(3) by (simp add: setAdd_def)
  moreover have "distinct region" "set region \<inter> set V0 = {}" using d by auto
  ultimately show ?thesis using reg to dt by auto
qed

lemma touching_colours:
  assumes nh: "noHoles sb"
    and to: "set touching = cellAt sb ` {n. onBoard sb n \<and> cellAt sb n \<noteq> Null
                                           \<and> (\<exists>s \<in> regionSet sb p. adjacent s n)}"
    and dt: "distinct touching"
  shows "length touching = 1 \<and> Stone c \<in> set touching \<longleftrightarrow> borderColours sb p = {c}"
proof -
  have st: "set touching = Stone ` borderColours sb p"
  proof (rule set_eqI)
    fix x
    show "x \<in> set touching \<longleftrightarrow> x \<in> Stone ` borderColours sb p"
    proof
      assume "x \<in> set touching"
      then obtain n s where n: "x = cellAt sb n" "onBoard sb n" "cellAt sb n \<noteq> Null"
        "s \<in> regionSet sb p" "adjacent s n"
        unfolding to by blast
      from nh n(2) have "cellAt sb n \<noteq> Undefined" unfolding noHoles_def by blast
      with n(3) obtain c' where c': "cellAt sb n = Stone c'" by (cases "cellAt sb n") auto
      with n have "c' \<in> borderColours sb p" unfolding borderColours_def by blast
      with c' n(1) show "x \<in> Stone ` borderColours sb p" by simp
    next
      assume "x \<in> Stone ` borderColours sb p"
      then obtain c' q n where "x = Stone c'" "q \<in> regionSet sb p" "onBoard sb n"
        "adjacent q n" "cellAt sb n = Stone c'"
        unfolding borderColours_def by blast
      then show "x \<in> set touching" unfolding to by force
    qed
  qed
  have "length touching = card (set touching)" using dt by (simp add: distinct_card)
  also have "\<dots> = card (borderColours sb p)"
    unfolding st by (rule card_image) (simp add: inj_on_def)
  finally have len: "length touching = card (borderColours sb p)" .
  have mem: "Stone c \<in> set touching \<longleftrightarrow> c \<in> borderColours sb p" unfolding st by auto
  show ?thesis
  proof
    assume "length touching = 1 \<and> Stone c \<in> set touching"
    then have "card (borderColours sb p) = 1" "c \<in> borderColours sb p"
      using len mem by simp_all
    then show "borderColours sb p = {c}" by (auto simp: card_1_singleton_iff)
  next
    assume "borderColours sb p = {c}"
    then show "length touching = 1 \<and> Stone c \<in> set touching" using len mem by simp
  qed
qed

lemma territory_region:
  assumes "onBoard sb p" "cellAt sb p = Null"
  shows "territorySet sb c \<inter> regionSet sb p = (if borderColours sb p = {c} then regionSet sb p else {})"
proof -
  have "q \<in> territorySet sb c \<longleftrightarrow> borderColours sb p = {c}" if "q \<in> regionSet sb p" for q
    using regionSet_cells[OF assms that] borderColours_same[OF that]
    by (simp add: territorySet_def)
  then show ?thesis by auto
qed

lemma territory_card_append:
  assumes "onBoard sb p" "cellAt sb p = Null"
    and "set region = regionSet sb p" "distinct region" "set region \<inter> set visited = {}"
  shows "card (territorySet sb c \<inter> set (visited @ region))
           = card (territorySet sb c \<inter> set visited)
             + (if borderColours sb p = {c} then length region else 0)"
proof -
  have "territorySet sb c \<inter> set (visited @ region)
          = (territorySet sb c \<inter> set visited) \<union> (territorySet sb c \<inter> regionSet sb p)"
    using assms(3) by auto
  moreover have "(territorySet sb c \<inter> set visited) \<inter> (territorySet sb c \<inter> regionSet sb p) = {}"
    using assms(3,5) by auto
  moreover have "finite (territorySet sb c \<inter> set visited)"
    "finite (territorySet sb c \<inter> regionSet sb p)"
    using regionSet_finite[OF assms(1,2)] by simp_all
  ultimately have "card (territorySet sb c \<inter> set (visited @ region))
      = card (territorySet sb c \<inter> set visited) + card (territorySet sb c \<inter> regionSet sb p)"
    by (simp add: card_Un_disjoint)
  moreover have "card (regionSet sb p) = length region"
    using assms(3,4) distinct_card by metis
  ultimately show ?thesis unfolding territory_region[OF assms(1,2)] by simp
qed

lemma scanPoint_fill:
  assumes "cellAt sb p = Null" "p \<notin> set visited"
    and "regionLoop sb [p] (setAdd p visited) [p] [] = (visited', region, touching)"
  shows "scanPoint sb p (visited, bt, wt) =
           (if length touching = 1
            then (if Stone Black \<in> set touching then (visited', bt + length region, wt)
                  else if Stone White \<in> set touching then (visited', bt, wt + length region)
                  else (visited', bt, wt))
            else (visited', bt, wt))"
  unfolding scanPoint_def using assms by (simp del: regionLoop.simps)

lemma scanPoint_skip:
  assumes "\<not> (cellAt sb p = Null \<and> p \<notin> set visited)"
  shows "scanPoint sb p (visited, bt, wt) = (visited, bt, wt)"
  unfolding scanPoint_def using assms by (auto simp del: regionLoop.simps)

lemma scanPoint_inv:
  assumes nh: "noHoles sb" and ob: "onBoard sb p" and inv: "scanInv sb D st"
  shows "scanInv sb (insert p D) (scanPoint sb p st)"
proof -
  obtain visited bt wt where st: "st = (visited, bt, wt)" by (cases st) auto
  from inv have d: "distinct visited"
    and cells: "\<forall>v \<in> set visited. onBoard sb v \<and> cellAt sb v = Null"
    and closed: "\<forall>v \<in> set visited. \<forall>q. (v, q) \<in> emptyEdge sb \<longrightarrow> q \<in> set visited"
    and dn: "\<forall>p \<in> D. onBoard sb p \<and> cellAt sb p = Null \<longrightarrow> p \<in> set visited"
    and bt: "bt = card (territorySet sb Black \<inter> set visited)"
    and wt: "wt = card (territorySet sb White \<inter> set visited)"
    unfolding scanInv_def st prod.case by blast+
  show ?thesis
  proof (cases "cellAt sb p = Null \<and> p \<notin> set visited")
    case False
    then have sk: "scanPoint sb p st = (visited, bt, wt)" unfolding st by (rule scanPoint_skip)
    have dn': "\<forall>q \<in> insert p D. onBoard sb q \<and> cellAt sb q = Null \<longrightarrow> q \<in> set visited"
      using dn False by blast
    show ?thesis unfolding sk scanInv_def prod.case
      by (intro conjI d cells closed dn' bt wt)
  next
    case True
    then have e: "cellAt sb p = Null" and nv: "p \<notin> set visited" by simp_all
    from regionFill_correct[OF closed d ob e nv] obtain region touching where
      l: "regionLoop sb [p] (setAdd p visited) [p] [] = (visited @ region, region, touching)"
      and reg: "set region = regionSet sb p" and dr: "distinct region"
      and dis: "set region \<inter> set visited = {}"
      and to: "set touching = cellAt sb ` {n. onBoard sb n \<and> cellAt sb n \<noteq> Null
                                           \<and> (\<exists>s \<in> regionSet sb p. adjacent s n)}"
      and dt: "distinct touching"
      by blast
    let ?B = "borderColours sb p"
    have tc: "length touching = 1 \<and> Stone c \<in> set touching \<longleftrightarrow> ?B = {c}" for c
      using touching_colours[OF nh to dt] .
    have sp: "scanPoint sb p st =
        (visited @ region,
         bt + (if ?B = {Black} then length region else 0),
         wt + (if ?B = {White} then length region else 0))"
    proof (cases "length touching = 1")
      case False
      then have "?B \<noteq> {Black}" "?B \<noteq> {White}" using tc by blast+
      with False show ?thesis unfolding st scanPoint_fill[OF e nv l] by simp
    next
      case one: True
      show ?thesis
      proof (cases "Stone Black \<in> set touching")
        case True
        then have "?B = {Black}" using one tc by blast
        then show ?thesis using one True unfolding st scanPoint_fill[OF e nv l] by simp
      next
        case nb: False
        then have b: "?B \<noteq> {Black}" using tc by blast
        show ?thesis
        proof (cases "Stone White \<in> set touching")
          case True
          then have "?B = {White}" using one tc by blast
          then show ?thesis using one nb True unfolding st scanPoint_fill[OF e nv l] by simp
        next
          case False
          then have "?B \<noteq> {White}" using tc by blast
          with b show ?thesis using one nb False unfolding st scanPoint_fill[OF e nv l] by simp
        qed
      qed
    qed
    have 1: "distinct (visited @ region)" using d dr dis by auto
    have 2: "\<forall>v \<in> set (visited @ region). onBoard sb v \<and> cellAt sb v = Null"
    proof
      fix v assume "v \<in> set (visited @ region)"
      then consider "v \<in> set visited" | "v \<in> regionSet sb p" using reg by auto
      then show "onBoard sb v \<and> cellAt sb v = Null"
        using cells regionSet_cells[OF ob e] by cases blast+
    qed
    have 3: "\<forall>v \<in> set (visited @ region). \<forall>q. (v, q) \<in> emptyEdge sb \<longrightarrow> q \<in> set (visited @ region)"
    proof (intro ballI allI impI)
      fix v q assume v: "v \<in> set (visited @ region)" and vq: "(v, q) \<in> emptyEdge sb"
      show "q \<in> set (visited @ region)"
      proof (cases "v \<in> set visited")
        case True
        with closed vq have "q \<in> set visited" by blast
        then show ?thesis by simp
      next
        case False
        then have "(p, v) \<in> (emptyEdge sb)\<^sup>*" using v reg by (simp add: regionSet_def)
        with vq have "q \<in> regionSet sb p" by (simp add: regionSet_def)
        then show ?thesis using reg by simp
      qed
    qed
    have "p \<in> set region" using reg regionSet_self[of p sb] by simp
    then have 4: "\<forall>q \<in> insert p D. onBoard sb q \<and> cellAt sb q = Null \<longrightarrow> q \<in> set (visited @ region)"
      using dn by auto
    have 5: "bt + (if ?B = {Black} then length region else 0)
               = card (territorySet sb Black \<inter> set (visited @ region))"
      using territory_card_append[OF ob e reg dr dis, of Black] bt by simp
    have 6: "wt + (if ?B = {White} then length region else 0)
               = card (territorySet sb White \<inter> set (visited @ region))"
      using territory_card_append[OF ob e reg dr dis, of White] wt by simp
    show ?thesis unfolding sp scanInv_def prod.case
      by (intro conjI 1 2 3 4 5 6)
  qed
qed

lemma scan_fold_inv:
  assumes "noHoles sb" "\<forall>p \<in> set ps. onBoard sb p" "scanInv sb D st"
  shows "scanInv sb (D \<union> set ps) (fold (scanPoint sb) ps st)"
  using assms(2,3)
proof (induction ps arbitrary: D st)
  case Nil
  then show ?case by simp
next
  case (Cons p ps)
  have "scanInv sb (insert p D) (scanPoint sb p st)"
    using assms(1) Cons.prems by (simp add: scanPoint_inv)
  from Cons.IH[OF _ this] Cons.prems(1) show ?case by simp
qed

lemma scanBoard_correct:
  assumes "noHoles sb"
  shows "\<exists>visited. scanBoard (length sb) sb
            = (visited, card (territorySet sb Black), card (territorySet sb White))
          \<and> distinct visited \<and> set visited = {p. onBoard sb p \<and> cellAt sb p = Null}"
proof -
  have "scanInv sb {} ([], 0, 0)" by (simp add: scanInv_def)
  moreover have "\<forall>p \<in> set (scanOrder (length sb)). onBoard sb p"
    by (simp add: scanOrder_onBoard)
  ultimately have "scanInv sb ({} \<union> set (scanOrder (length sb))) (scanBoard (length sb) sb)"
    unfolding scanBoard_def using assms by (intro scan_fold_inv)
  then have i: "scanInv sb {p. onBoard sb p} (scanBoard (length sb) sb)"
    by (simp add: scanOrder_onBoard)
  obtain visited bt wt where s: "scanBoard (length sb) sb = (visited, bt, wt)"
    by (cases "scanBoard (length sb) sb") auto
  from i have d: "distinct visited"
    and cells: "\<forall>v \<in> set visited. onBoard sb v \<and> cellAt sb v = Null"
    and dn: "\<forall>p \<in> {p. onBoard sb p}. onBoard sb p \<and> cellAt sb p = Null \<longrightarrow> p \<in> set visited"
    and bt: "bt = card (territorySet sb Black \<inter> set visited)"
    and wt: "wt = card (territorySet sb White \<inter> set visited)"
    unfolding scanInv_def s prod.case by blast+
  have v: "set visited = {p. onBoard sb p \<and> cellAt sb p = Null}" using cells dn by auto
  have "territorySet sb c \<inter> set visited = territorySet sb c" for c
    unfolding v by (auto simp: territorySet_def)
  with bt wt s d v show ?thesis by simp
qed

section \<open>The scoring view and the partition of its empty points\<close>

lemma markAll_spec:
  assumes "squareBoard b0" "\<forall>p \<in> set ds. onBoard b0 p"
  shows "squareBoard (fold (\<lambda>p b. setCell b p Null) ds b0)
       \<and> length (fold (\<lambda>p b. setCell b p Null) ds b0) = length b0
       \<and> (\<forall>q. cellAt (fold (\<lambda>p b. setCell b p Null) ds b0) q
                = (if q \<in> set ds then Null else cellAt b0 q))"
  using assms
proof (induction ds arbitrary: b0)
  case Nil
  then show ?case by simp
next
  case (Cons p ds)
  let ?b1 = "setCell b0 p Null"
  have sq: "squareBoard ?b1" using Cons.prems by (simp add: squareBoard_setCell)
  have ob: "\<forall>p \<in> set ds. onBoard ?b1 p" using Cons.prems by (simp add: onBoard_setCell)
  have c1: "cellAt ?b1 q = (if q = p then Null else cellAt b0 q)" for q
    using Cons.prems by (simp add: cellAt_setCell)
  from Cons.IH[OF sq ob] c1 show ?case by (simp add: length_setCell)
qed

lemma scoreView_spec:
  assumes "squareBoard board" "\<forall>p \<in> set ds. onBoard board p"
  shows "squareBoard (scoreView board ds)" and "length (scoreView board ds) = length board"
    and "cellAt (scoreView board ds) q = (if q \<in> set ds then Null else cellAt board q)"
  using markAll_spec[OF assms] unfolding scoreView_def cloneBoard_id by blast+

lemma scoreView_noHoles:
  assumes "squareBoard board" "\<forall>p \<in> set ds. onBoard board p" "noHoles board"
  shows "noHoles (scoreView board ds)"
  unfolding noHoles_def
proof (intro allI impI)
  fix p assume "onBoard (scoreView board ds) p"
  then have "onBoard board p"
    using onBoard_length[OF scoreView_spec(2)[OF assms(1,2)]] by simp
  with assms(3) have "cellAt board p \<noteq> Undefined" unfolding noHoles_def by blast
  then show "cellAt (scoreView board ds) p \<noteq> Undefined"
    unfolding scoreView_spec(3)[OF assms(1,2)] by simp
qed

lemma noHoles_rows:
  assumes "squareBoard board" "\<forall>row \<in> set board. Undefined \<notin> set row"
  shows "noHoles board"
  unfolding noHoles_def
proof (intro allI impI)
  fix p assume ob: "onBoard board p"
  let ?i = "nat (snd p)"
  have i: "?i < length board" and y: "0 \<le> snd p" "snd p < int (length board)"
    using ob by (simp_all add: onBoard_def nat_less_iff)
  have len: "length (board ! ?i) = length board" using assms(1) i by (rule squareBoard_row)
  have x: "0 \<le> fst p" "fst p < int (length (board ! ?i))" "nat (fst p) < length (board ! ?i)"
    using ob len by (simp_all add: onBoard_def nat_less_iff)
  have "cellAt board p = board ! ?i ! nat (fst p)"
    using x y by (simp add: cellAt_def rowAt_def)
  moreover have "board ! ?i ! nat (fst p) \<in> set (board ! ?i)" using x(3) by simp
  moreover have "board ! ?i \<in> set board" using i by simp
  ultimately show "cellAt board p \<noteq> Undefined" using assms(2) by metis
qed

lemma player_sets: "(B :: Player set) = {} \<or> B = {Black} \<or> B = {White} \<or> B = {Black, White}"
proof -
  have "B \<subseteq> {Black, White}" using Player.exhaust by auto
  then show ?thesis by auto
qed

lemma territory_partition:
  "{p. onBoard sb p \<and> cellAt sb p = Null}
      = territorySet sb Black \<union> territorySet sb White \<union> neutralSet sb"
  "territorySet sb Black \<inter> territorySet sb White = {}"
  "territorySet sb Black \<inter> neutralSet sb = {}"
  "territorySet sb White \<inter> neutralSet sb = {}"
proof -
  show "{p. onBoard sb p \<and> cellAt sb p = Null}
      = territorySet sb Black \<union> territorySet sb White \<union> neutralSet sb"
    using player_sets unfolding territorySet_def neutralSet_def by blast
  show "territorySet sb Black \<inter> territorySet sb White = {}"
    unfolding territorySet_def by auto
  show "territorySet sb Black \<inter> neutralSet sb = {}"
    unfolding territorySet_def neutralSet_def by auto
  show "territorySet sb White \<inter> neutralSet sb = {}"
    unfolding territorySet_def neutralSet_def by auto
qed

lemma territory_whole_regions:
  assumes "p \<in> territorySet sb c"
  shows "regionSet sb p \<subseteq> territorySet sb c"
proof -
  have ob: "onBoard sb p" and e: "cellAt sb p = Null" and b: "borderColours sb p = {c}"
    using assms by (simp_all add: territorySet_def)
  from territory_region[OF ob e, of c] b show ?thesis by auto
qed

section \<open>Claims\<close>

text \<open>
  C5. On a point of the board, \<^verbatim>\<open>getGroup\<close> returns the empty group and no
  liberties when the point is empty; when it holds a stone, the returned stones are
  exactly the maximal connected set of stones of that colour containing the point,
  the returned liberties are exactly the empty points adjacent to a stone of the
  group, and neither list repeats a point.
\<close>
theorem getGroup_correct:
  "isValidPoint board x y \<Longrightarrow>
     (cellAt board (x, y) = Null \<longrightarrow>
        getGroup board x y = Inr \<lparr>stones = [], liberties = []\<rparr>)
   \<and> (\<forall>color. cellAt board (x, y) = Stone color \<longrightarrow>
        (\<exists>g. getGroup board x y = Inr g
           \<and> set (stones g) = groupSet board (x, y) \<and> distinct (stones g)
           \<and> set (liberties g) = libertySet board (x, y) \<and> distinct (liberties g)))"
proof (intro conjI impI allI)
  assume v: "isValidPoint board x y" and "cellAt board (x, y) = Null"
  then show "getGroup board x y = Inr \<lparr>stones = [], liberties = []\<rparr>"
    by (simp add: getGroup_def readCell_valid)
next
  fix color
  assume v: "isValidPoint board x y" and c: "cellAt board (x, y) = Stone color"
  then have g: "getGroup board x y = Inr (floodFill board color (x, y))"
    by (simp add: getGroup_def readCell_valid)
  from v have "onBoard board (x, y)" by (simp add: isValidPoint_onBoard)
  from floodFill_correct[OF this c] g
  show "\<exists>g. getGroup board x y = Inr g
           \<and> set (stones g) = groupSet board (x, y) \<and> distinct (stones g)
           \<and> set (liberties g) = libertySet board (x, y) \<and> distinct (liberties g)"
    by simp
qed

theorem getGroup_correct_witness:
  "isValidPoint exampleBoard 0 0 \<and> cellAt exampleBoard (0, 0) = Null
   \<and> getGroup exampleBoard 0 0 = Inr \<lparr>stones = [], liberties = []\<rparr>
   \<and> isValidPoint exampleBoard 1 1 \<and> cellAt exampleBoard (1, 1) = Stone Black
   \<and> groupSet exampleBoard (1, 1) = {(1, 1)}
   \<and> libertySet exampleBoard (1, 1) = {(2, 1), (1, 2)}"
proof -
  have v0: "isValidPoint exampleBoard 0 0" and c0: "cellAt exampleBoard (0, 0) = Null"
    and v1: "isValidPoint exampleBoard 1 1" and c1: "cellAt exampleBoard (1, 1) = Stone Black"
    unfolding exampleBoard_def by code_simp+
  have g: "getGroup exampleBoard 1 1 = Inr \<lparr>stones = [(1, 1)], liberties = [(2, 1), (1, 2)]\<rparr>"
    unfolding exampleBoard_def by code_simp
  from getGroup_correct[OF v0] c0
  have e: "getGroup exampleBoard 0 0 = Inr \<lparr>stones = [], liberties = []\<rparr>" by blast
  from getGroup_correct[OF v1] c1 g
  have "groupSet exampleBoard (1, 1) = {(1, 1)}"
    and "libertySet exampleBoard (1, 1) = {(2, 1), (1, 2)}"
    by auto
  with v0 c0 v1 c1 e show ?thesis by blast
qed

text \<open>
  C10. On a square board, for a row \<open>y\<close> of the board and a column \<open>x\<close> outside
  it, \<^verbatim>\<open>attemptMove\<close> returns \<^verbatim>\<open>{valid: false, message: "Point is already occupied."}\<close>:
  the cell reads as \<^verbatim>\<open>undefined\<close>, which is not \<^verbatim>\<open>null\<close>. With the row itself
  outside the board nothing guards the read, which then throws (see C9).
\<close>

theorem attemptMove_column_out_of_range:
  "squareBoard board \<Longrightarrow> 0 \<le> y \<Longrightarrow> y < int (length board) \<Longrightarrow>
     x < 0 \<or> x \<ge> int (length board) \<Longrightarrow>
     attemptMove board x y player =
       Inr \<lparr>valid = False, newBoard = None, capturedCount = None,
            message = Some ''Point is already occupied.''\<rparr>"
proof -
  assume sq: "squareBoard board" and y: "0 \<le> y" "y < int (length board)"
    and x: "x < 0 \<or> x \<ge> int (length board)"
  have "readCell board x y = Inr (cellAt board (x, y))" using y by (rule readCell_row)
  moreover have "cellAt board (x, y) = Undefined" using sq y x by (rule cellAt_outside_row)
  ultimately have "readCell board x y = Inr Undefined" by simp
  then show ?thesis by (simp add: attemptMove_def)
qed

theorem attemptMove_column_out_of_range_witness:
  "squareBoard exampleBoard \<and> (0::int) \<le> 1 \<and> (1::int) < int (length exampleBoard)
     \<and> ((3::int) < 0 \<or> (3::int) \<ge> int (length exampleBoard))
     \<and> attemptMove exampleBoard 3 1 Black =
          Inr \<lparr>valid = False, newBoard = None, capturedCount = None,
               message = Some ''Point is already occupied.''\<rparr>"
proof -
  have s: "squareBoard exampleBoard" by (simp add: squareBoard_def exampleBoard_def)
  have l: "(1::int) < int (length exampleBoard)"
    "(3::int) < 0 \<or> (3::int) \<ge> int (length exampleBoard)"
    by (simp_all add: exampleBoard_def)
  from attemptMove_column_out_of_range[OF s _ l, of Black] s l show ?thesis by simp
qed




text \<open>
  C8. Whatever \<^verbatim>\<open>calculateFinalScore\<close> returns has winner black exactly when
  the black total is strictly greater than the white total and white in every other
  case, a tie included; \<^verbatim>\<open>draw\<close> is never returned. It returns a result whenever
  every dead-stone key names a row of the board.
\<close>

theorem calculateFinalScore_winner:
  "(calculateFinalScore board ds caps k = Inr r \<longrightarrow>
      winner r = (if total (black r) > total (white r) then Wins Black else Wins White)
      \<and> winner r \<noteq> draw)
   \<and> ((\<forall>p \<in> set ds. 0 \<le> snd p \<and> snd p < int (length board)) \<longrightarrow>
        (\<exists>r'. calculateFinalScore board ds caps k = Inr r'))"
proof (intro conjI impI)
  assume a: "calculateFinalScore board ds caps k = Inr r"
  from calculateFinalScore_Inr[OF a] have "\<forall>p \<in> set ds. 0 \<le> snd p \<and> snd p < int (length board)" .
  from calculateFinalScore_rows[OF this, of caps k] a
  show "winner r = (if total (black r) > total (white r) then Wins Black else Wins White)"
    and "winner r \<noteq> draw"
    by (auto simp: scoreOf_def)
next
  assume "\<forall>p \<in> set ds. 0 \<le> snd p \<and> snd p < int (length board)"
  from calculateFinalScore_rows[OF this] show "\<exists>r'. calculateFinalScore board ds caps k = Inr r'"
    by blast
qed

theorem calculateFinalScore_winner_witness:
  "calculateFinalScore (initializeBoard 2) [] (\<lambda>_. 0) 0 =
     Inr \<lparr>black = \<lparr>territory = 0, captures = 0, total = 0\<rparr>,
          white = \<lparr>territory = 0, captures = 0, total = 0, komi = 0\<rparr>,
          winner = Wins White\<rparr>
   \<and> calculateFinalScore exampleBoard [(1, 0), (0, 1)] (\<lambda>_. 0) KOMI =
     Inr \<lparr>black = \<lparr>territory = 6, captures = 2, total = 8\<rparr>,
          white = \<lparr>territory = 0, captures = 0, total = 13 / 2, komi = 13 / 2\<rparr>,
          winner = Wins Black\<rparr>"
proof -
  let ?tie = "\<lparr>black = \<lparr>territory = 0, captures = 0, total = 0\<rparr>,
          white = \<lparr>territory = 0, captures = 0, total = 0, komi = 0\<rparr>,
          winner = Wins White\<rparr>"
  have e: "calculateFinalScore (initializeBoard 2) [] (\<lambda>_. 0) 0 = Inr ?tie"
    by code_simp
  from calculateFinalScore_winner[of "initializeBoard 2" "[]" "\<lambda>_. 0" 0 ?tie] e
  have "winner ?tie = Wins White \<and> (\<exists>r'. calculateFinalScore (initializeBoard 2) [] (\<lambda>_. 0) 0 = Inr r')"
    by simp
  moreover have "calculateFinalScore exampleBoard [(1, 0), (0, 1)] (\<lambda>_. 0) KOMI =
     Inr \<lparr>black = \<lparr>territory = 6, captures = 2, total = 8\<rparr>,
          white = \<lparr>territory = 0, captures = 0, total = 13 / 2, komi = 13 / 2\<rparr>,
          winner = Wins Black\<rparr>"
    unfolding exampleBoard_def by code_simp
  ultimately show ?thesis using e by simp
qed



text \<open>
  C2. On a square board, when \<^verbatim>\<open>attemptMove\<close> on an empty point returns
  \<^verbatim>\<open>valid = true\<close>, the new board has the size of the old one and holds the
  player's stone at \<open>(x, y)\<close>, nothing at the stones of the adjacent opponent groups
  left without a liberty by the placement, and at every other point what the input
  board holds; \<^verbatim>\<open>capturedCount\<close> is the number of stones so removed.
\<close>

theorem attemptMove_effect:
  "squareBoard board \<Longrightarrow> isValidPoint board x y \<Longrightarrow> cellAt board (x, y) = Null \<Longrightarrow>
     attemptMove board x y player = Inr r \<Longrightarrow> valid r \<Longrightarrow>
     \<exists>nb. newBoard r = Some nb \<and> squareBoard nb \<and> length nb = length board
       \<and> (\<forall>q. onBoard board q \<longrightarrow>
              cellAt nb q = (if q = (x, y) then Stone player
                             else if q \<in> captured board (x, y) player then Null
                             else cellAt board q))
       \<and> capturedCount r = Some (card (captured board (x, y) player))"
proof -
  assume sq: "squareBoard board" and vp: "isValidPoint board x y"
    and e: "cellAt board (x, y) = Null"
    and a: "attemptMove board x y player = Inr r" and va: "valid r"
  have ob: "onBoard board (x, y)" using vp by (simp add: isValidPoint_onBoard)
  from resolveCaptures_spec[OF sq ob, of player] obtain nb where
    rc: "resolveCaptures board x y player = Inr (nb, card (captured board (x, y) player))"
    and s: "squareBoard nb" "length nb = length board"
    and v: "\<forall>q. cellAt nb q = afterMove board (x, y) player q"
    by blast
  from attemptMove_empty[OF sq ob e rc s(2) v] a va
  have "newBoard r = Some nb \<and> capturedCount r = Some (card (captured board (x, y) player))"
    by (auto split: if_splits)
  with s v show ?thesis unfolding afterMove_def by blast
qed

theorem attemptMove_effect_witness:
  "squareBoard exampleBoard \<and> isValidPoint exampleBoard 0 0 \<and> cellAt exampleBoard (0, 0) = Null
   \<and> attemptMove exampleBoard 0 0 Black =
       Inr \<lparr>valid = True, newBoard = Some afterCapture, capturedCount = Some 2, message = None\<rparr>
   \<and> card (captured exampleBoard (0, 0) Black) = 2
   \<and> (1, 0) \<in> captured exampleBoard (0, 0) Black
   \<and> (0, 1) \<in> captured exampleBoard (0, 0) Black
   \<and> (1, 1) \<notin> captured exampleBoard (0, 0) Black"
proof -
  have vp: "isValidPoint exampleBoard 0 0" and e: "cellAt exampleBoard (0, 0) = Null"
    by code_simp+
  have ob: "onBoard exampleBoard (1, 0)" "onBoard exampleBoard (0, 1)"
    "onBoard exampleBoard (1, 1)"
    by (simp_all add: onBoard_def exampleBoard_def)
  have c: "cellAt afterCapture (1, 0) = Null" "cellAt exampleBoard (1, 0) = Stone White"
    "cellAt afterCapture (0, 1) = Null" "cellAt exampleBoard (0, 1) = Stone White"
    "cellAt afterCapture (1, 1) = Stone Black"
    by code_simp+
  from attemptMove_effect[OF exampleBoard_square vp e exampleBoard_move]
  have v: "\<forall>q. onBoard exampleBoard q \<longrightarrow>
          cellAt afterCapture q = (if q = (0, 0) then Stone Black
                                   else if q \<in> captured exampleBoard (0, 0) Black then Null
                                   else cellAt exampleBoard q)"
    and k: "card (captured exampleBoard (0, 0) Black) = 2"
    by simp_all
  from v[rule_format, OF ob(1)] c(1,2) have 1: "(1, 0) \<in> captured exampleBoard (0, 0) Black"
    by (simp split: if_splits)
  from v[rule_format, OF ob(2)] c(3,4) have 2: "(0, 1) \<in> captured exampleBoard (0, 0) Black"
    by (simp split: if_splits)
  from v[rule_format, OF ob(3)] c(5) have 3: "(1, 1) \<notin> captured exampleBoard (0, 0) Black"
    by (simp split: if_splits)
  from exampleBoard_square vp e exampleBoard_move k 1 2 3 show ?thesis by simp
qed

text \<open>
  C1. On a square board, if placing the player's stone on an empty point leaves an
  orthogonally adjacent opponent group without a liberty, \<^verbatim>\<open>attemptMove\<close> removes
  every stone of that group before the suicide check, the placed stone's group then
  has a liberty, and the move is accepted.
\<close>

theorem attemptMove_capture_first:
  "squareBoard board \<Longrightarrow> isValidPoint board x y \<Longrightarrow> cellAt board (x, y) = Null \<Longrightarrow>
     onBoard board n \<Longrightarrow> adjacent (x, y) n \<Longrightarrow> cellAt board n = Stone (opponentOf player) \<Longrightarrow>
     libertySet (setCell board (x, y) (Stone player)) n = {} \<Longrightarrow>
     \<exists>nb k. attemptMove board x y player =
               Inr \<lparr>valid = True, newBoard = Some nb, capturedCount = Some k, message = None\<rparr>
       \<and> (\<forall>s \<in> groupSet (setCell board (x, y) (Stone player)) n. cellAt nb s = Null)
       \<and> libertySet nb (x, y) \<noteq> {}"
proof -
  let ?placed = "setCell board (x, y) (Stone player)"
  assume sq: "squareBoard board" and vp: "isValidPoint board x y"
    and e: "cellAt board (x, y) = Null"
    and n: "onBoard board n" "adjacent (x, y) n" "cellAt board n = Stone (opponentOf player)"
    and l: "libertySet ?placed n = {}"
  have ob: "onBoard board (x, y)" using vp by (simp add: isValidPoint_onBoard)
  have np: "n \<noteq> (x, y)" using n(3) e by auto
  then have pn: "cellAt ?placed n = Stone (opponentOf player)"
    using n(3) by (simp add: cellAt_setCell[OF sq ob])
  have G: "groupSet ?placed n \<subseteq> captured board (x, y) player"
    unfolding captured_def capturedGroups_def using n(1,2) pn l by blast
  from resolveCaptures_spec[OF sq ob, of player] obtain nb where
    rc: "resolveCaptures board x y player = Inr (nb, card (captured board (x, y) player))"
    and s: "squareBoard nb" "length nb = length board"
    and v: "\<forall>q. cellAt nb q = afterMove board (x, y) player q"
    by blast
  have gone: "\<forall>s \<in> groupSet ?placed n. cellAt nb s = Null"
  proof
    fix s assume "s \<in> groupSet ?placed n"
    then have c: "s \<in> captured board (x, y) player" using G by blast
    then have "s \<noteq> (x, y)" using captured_not_placed[OF sq ob, of player] by auto
    with c v[rule_format, of s] show "cellAt nb s = Null" by (simp add: afterMove_def)
  qed
  have "n \<in> groupSet ?placed n" using pn by (rule groupSet_self)
  with gone have nn: "cellAt nb n = Null" by blast
  have st: "cellAt nb (x, y) = Stone player"
    using v[rule_format, of "(x, y)"] by (simp add: afterMove_placed)
  then have "(x, y) \<in> groupSet nb (x, y)" by (rule groupSet_self)
  then have "n \<in> libertySet nb (x, y)"
    unfolding libertySet_def using nn n(1,2) onBoard_length[OF s(2)] by auto
  then have lib: "libertySet nb (x, y) \<noteq> {}" by blast
  from attemptMove_empty[OF sq ob e rc s(2) v] lib
  have "attemptMove board x y player =
          Inr \<lparr>valid = True, newBoard = Some nb,
               capturedCount = Some (card (captured board (x, y) player)), message = None\<rparr>"
    by simp
  with gone lib show ?thesis by blast
qed

theorem attemptMove_capture_first_witness:
  "squareBoard exampleBoard \<and> isValidPoint exampleBoard 0 0 \<and> cellAt exampleBoard (0, 0) = Null
   \<and> onBoard exampleBoard (1, 0) \<and> adjacent (0, 0) (1, 0)
   \<and> cellAt exampleBoard (1, 0) = Stone (opponentOf Black)
   \<and> libertySet (setCell exampleBoard (0, 0) (Stone Black)) (1, 0) = {}
   \<and> libertySet (setCell exampleBoard (0, 0) (Stone Black)) (0, 0) = {}
   \<and> attemptMove exampleBoard 0 0 Black =
       Inr \<lparr>valid = True, newBoard = Some afterCapture, capturedCount = Some 2, message = None\<rparr>
   \<and> cellAt afterCapture (1, 0) = Null
   \<and> libertySet afterCapture (0, 0) \<noteq> {}"
proof -
  let ?placed = "setCell exampleBoard (0, 0) (Stone Black)"
  have vp: "isValidPoint exampleBoard 0 0" and e: "cellAt exampleBoard (0, 0) = Null"
    and c: "cellAt exampleBoard (1, 0) = Stone (opponentOf Black)"
    by code_simp+
  have ob: "onBoard exampleBoard (1, 0)" by (simp add: onBoard_def exampleBoard_def)
  have adj: "adjacent (0, 0) (1, 0)" by (simp add: adjacent_def)
  have obp: "onBoard ?placed (1, 0)" "onBoard ?placed (0, 0)"
    by (simp_all add: onBoard_def length_setCell exampleBoard_def)
  have cw: "cellAt ?placed (1, 0) = Stone White" and cb: "cellAt ?placed (0, 0) = Stone Black"
    by code_simp+
  have "liberties (floodFill ?placed White (1, 0)) = []" by code_simp
  with floodFill_correct(3)[OF obp(1) cw] have l: "libertySet ?placed (1, 0) = {}" by simp
  have "liberties (floodFill ?placed Black (0, 0)) = []" by code_simp
  with floodFill_correct(3)[OF obp(2) cb] have l0: "libertySet ?placed (0, 0) = {}" by simp
  from attemptMove_capture_first[OF exampleBoard_square vp e ob adj c l] exampleBoard_move
  have "cellAt afterCapture (1, 0) = Null \<and> libertySet afterCapture (0, 0) \<noteq> {}"
    using groupSet_self[OF cw] by auto
  with exampleBoard_square vp e ob adj c l l0 exampleBoard_move show ?thesis by simp
qed

text \<open>
  C4, as stated, fails on the message of an occupied point: the code returns
  \<^verbatim>\<open>"Point is already occupied."\<close>, with a full stop.
\<close>

theorem attemptMove_occupied_message_counterexample:
  "cellAt exampleBoard (1, 0) = Stone White
   \<and> attemptMove exampleBoard 1 0 Black =
       Inr \<lparr>valid = False, newBoard = None, capturedCount = None,
            message = Some ''Point is already occupied.''\<rparr>
   \<and> Some ''Point is already occupied.'' \<noteq> Some ''Point is already occupied''"
  by code_simp

text \<open>
  C4, amended. On a square board and a point of the board, \<^verbatim>\<open>attemptMove\<close> returns
  a result, and \<^verbatim>\<open>valid\<close> is false exactly when the point is not empty or the
  placed stone's group has no liberty on the board after capture resolution (the
  placement with the captured groups removed). A point that is not empty yields the
  message \<^verbatim>\<open>"Point is already occupied."\<close>, a suicide yields
  \<^verbatim>\<open>"Suicide move is not allowed."\<close>, and a rejection carries neither a board nor a
  capture count.
\<close>

theorem attemptMove_rejection:
  "squareBoard board \<Longrightarrow> isValidPoint board x y \<Longrightarrow>
     \<exists>r nb k. attemptMove board x y player = Inr r
       \<and> resolveCaptures board x y player = Inr (nb, k) \<and> length nb = length board
       \<and> (\<forall>q. cellAt nb q = afterMove board (x, y) player q)
       \<and> (valid r = False \<longleftrightarrow> cellAt board (x, y) \<noteq> Null \<or> libertySet nb (x, y) = {})
       \<and> (cellAt board (x, y) \<noteq> Null \<longrightarrow> message r = Some ''Point is already occupied.'')
       \<and> (cellAt board (x, y) = Null \<and> libertySet nb (x, y) = {} \<longrightarrow>
            message r = Some ''Suicide move is not allowed.'')
       \<and> (valid r = False \<longrightarrow> newBoard r = None \<and> capturedCount r = None)"
proof -
  assume sq: "squareBoard board" and vp: "isValidPoint board x y"
  have ob: "onBoard board (x, y)" using vp by (simp add: isValidPoint_onBoard)
  from resolveCaptures_spec[OF sq ob, of player] obtain nb where
    rc: "resolveCaptures board x y player = Inr (nb, card (captured board (x, y) player))"
    and s: "squareBoard nb" "length nb = length board"
    and v: "\<forall>q. cellAt nb q = afterMove board (x, y) player q"
    by blast
  show ?thesis
  proof (cases "cellAt board (x, y) = Null")
    case True
    from attemptMove_empty[OF sq ob True rc s(2) v]
    show ?thesis using rc s(2) v True by (cases "libertySet nb (x, y) = {}") auto
  next
    case False
    then have "attemptMove board x y player =
        Inr \<lparr>valid = False, newBoard = None, capturedCount = None,
             message = Some ''Point is already occupied.''\<rparr>"
      using readCell_valid[OF vp] by (simp add: attemptMove_def)
    then show ?thesis using rc s(2) v False by auto
  qed
qed

theorem attemptMove_rejection_witness:
  "squareBoard suicideBoard \<and> isValidPoint suicideBoard 0 0 \<and> isValidPoint suicideBoard 1 0
   \<and> cellAt suicideBoard (0, 0) = Null \<and> cellAt suicideBoard (1, 0) \<noteq> Null
   \<and> resolveCaptures suicideBoard 0 0 Black = Inr (suicidePlaced, 0)
   \<and> libertySet suicidePlaced (0, 0) = {}
   \<and> attemptMove suicideBoard 0 0 Black =
       Inr \<lparr>valid = False, newBoard = None, capturedCount = None,
            message = Some ''Suicide move is not allowed.''\<rparr>
   \<and> attemptMove suicideBoard 1 0 Black =
       Inr \<lparr>valid = False, newBoard = None, capturedCount = None,
            message = Some ''Point is already occupied.''\<rparr>"
proof -
  have sq: "squareBoard suicideBoard" by (simp add: squareBoard_def suicideBoard_def)
  have vp: "isValidPoint suicideBoard 0 0" "isValidPoint suicideBoard 1 0"
    and c: "cellAt suicideBoard (0, 0) = Null" "cellAt suicideBoard (1, 0) \<noteq> Null"
    by code_simp+
  have rc: "resolveCaptures suicideBoard 0 0 Black = Inr (suicidePlaced, 0)"
    by code_simp
  have a0: "attemptMove suicideBoard 0 0 Black =
       Inr \<lparr>valid = False, newBoard = None, capturedCount = None,
            message = Some ''Suicide move is not allowed.''\<rparr>"
    by code_simp
  from attemptMove_rejection[OF sq vp(1), of Black] rc a0 c(1)
  have l: "libertySet suicidePlaced (0, 0) = {}" by auto
  from attemptMove_rejection[OF sq vp(2), of Black] c(2)
  have a1: "attemptMove suicideBoard 1 0 Black =
       Inr \<lparr>valid = False, newBoard = None, capturedCount = None,
            message = Some ''Point is already occupied.''\<rparr>"
    by (auto simp: MoveResult.equality)
  from sq vp c rc l a0 a1 show ?thesis by blast
qed

text \<open>
  C3, as stated for every board, fails: a group that has no liberty on the input
  board and does not touch the move is still there afterwards. Here the white stone
  in the corner has no liberty before or after Black plays at \<open>(2, 2)\<close>.
\<close>

theorem attemptMove_illegal_input_counterexample:
  "attemptMove illegalBoard 2 2 Black =
     Inr \<lparr>valid = True, newBoard = Some illegalAfter, capturedCount = Some 0, message = None\<rparr>
   \<and> cellAt illegalAfter (0, 0) = Stone White
   \<and> libertySet illegalAfter (0, 0) = {}"
proof -
  have a: "attemptMove illegalBoard 2 2 Black =
     Inr \<lparr>valid = True, newBoard = Some illegalAfter, capturedCount = Some 0, message = None\<rparr>"
    by code_simp
  have c: "cellAt illegalAfter (0, 0) = Stone White" by code_simp
  have ob: "onBoard illegalAfter (0, 0)" by (simp add: onBoard_def illegalAfter_def)
  have "liberties (floodFill illegalAfter White (0, 0)) = []" by code_simp
  with floodFill_correct(3)[OF ob c] have "libertySet illegalAfter (0, 0) = {}" by simp
  with a c show ?thesis by simp
qed

text \<open>
  C3, amended. On a square board on which every group has at least one liberty,
  after \<^verbatim>\<open>attemptMove\<close> returns \<^verbatim>\<open>valid = true\<close> no group of either colour on
  the returned board has zero liberties.
\<close>

theorem attemptMove_preserves_legal:
  "squareBoard board \<Longrightarrow> legalBoard board \<Longrightarrow> attemptMove board x y player = Inr r \<Longrightarrow>
     valid r \<Longrightarrow> \<exists>nb. newBoard r = Some nb \<and> legalBoard nb"
proof -
  assume sq: "squareBoard board" and legal: "legalBoard board"
    and a: "attemptMove board x y player = Inr r" and va: "valid r"
  from attemptMove_valid_empty[OF sq a va]
  have ob: "onBoard board (x, y)" and e: "cellAt board (x, y) = Null" by simp_all
  from resolveCaptures_spec[OF sq ob, of player] obtain nb where
    rc: "resolveCaptures board x y player = Inr (nb, card (captured board (x, y) player))"
    and s: "squareBoard nb" "length nb = length board"
    and v: "\<forall>q. cellAt nb q = afterMove board (x, y) player q"
    by blast
  from attemptMove_empty[OF sq ob e rc s(2) v] a va
  have n: "newBoard r = Some nb" and lib: "libertySet nb (x, y) \<noteq> {}"
    by (auto split: if_splits)
  from attemptMove_keeps_legal[OF sq legal ob e s(2) v lib] n show ?thesis by simp
qed

theorem attemptMove_preserves_legal_witness:
  "squareBoard exampleBoard \<and> legalBoard exampleBoard
   \<and> attemptMove exampleBoard 0 0 Black =
       Inr \<lparr>valid = True, newBoard = Some afterCapture, capturedCount = Some 2, message = None\<rparr>
   \<and> legalBoard afterCapture"
proof -
  have l: "legalBoard exampleBoard" unfolding legalBoard_code by code_simp
  from attemptMove_preserves_legal[OF exampleBoard_square l exampleBoard_move]
  have "legalBoard afterCapture" by simp
  with exampleBoard_square l exampleBoard_move show ?thesis by simp
qed

text \<open>
  C6. On a square board whose slots hold stones or \<^verbatim>\<open>null\<close>, with dead-stone keys
  on the board: the scoring view is the board with the dead stones removed; the scan
  visits every empty point of the view exactly once; the black and white territories
  returned are the numbers of empty points whose maximal 4-connected empty region
  borders black only and white only; every empty point is in exactly one of black
  territory, white territory and neutral (region bordering both colours or none);
  and a territory consists of whole regions.
\<close>

theorem calculateFinalScore_territory:
  "squareBoard board \<Longrightarrow> noHoles board \<Longrightarrow> \<forall>p \<in> set ds. onBoard board p \<Longrightarrow>
     \<exists>r visited bt wt. calculateFinalScore board ds caps k = Inr r
       \<and> (\<forall>q. cellAt (scoreView board ds) q = (if q \<in> set ds then Null else cellAt board q))
       \<and> scanBoard (length board) (scoreView board ds) = (visited, bt, wt)
       \<and> distinct visited
       \<and> set visited = {p. onBoard board p \<and> cellAt (scoreView board ds) p = Null}
       \<and> territory (black r) = of_nat bt \<and> territory (white r) = of_nat wt
       \<and> bt = card (territorySet (scoreView board ds) Black)
       \<and> wt = card (territorySet (scoreView board ds) White)
       \<and> {p. onBoard board p \<and> cellAt (scoreView board ds) p = Null}
            = territorySet (scoreView board ds) Black \<union> territorySet (scoreView board ds) White
              \<union> neutralSet (scoreView board ds)
       \<and> territorySet (scoreView board ds) Black \<inter> territorySet (scoreView board ds) White = {}
       \<and> territorySet (scoreView board ds) Black \<inter> neutralSet (scoreView board ds) = {}
       \<and> territorySet (scoreView board ds) White \<inter> neutralSet (scoreView board ds) = {}
       \<and> (\<forall>c. \<forall>p \<in> territorySet (scoreView board ds) c.
              regionSet (scoreView board ds) p \<subseteq> territorySet (scoreView board ds) c)"
proof -
  let ?sv = "scoreView board ds"
  assume sq: "squareBoard board" and nh: "noHoles board"
    and ob: "\<forall>p \<in> set ds. onBoard board p"
  have rows: "\<forall>p \<in> set ds. 0 \<le> snd p \<and> snd p < int (length board)"
    using ob by (simp add: onBoard_def)
  have len: "length ?sv = length board" using sq ob by (rule scoreView_spec(2))
  have obs: "onBoard ?sv p = onBoard board p" for p by (rule onBoard_length[OF len])
  have view: "\<forall>q. cellAt ?sv q = (if q \<in> set ds then Null else cellAt board q)"
    using scoreView_spec(3)[OF sq ob] by blast
  from scanBoard_correct[OF scoreView_noHoles[OF sq ob nh]] obtain visited where
    s: "scanBoard (length board) ?sv
          = (visited, card (territorySet ?sv Black), card (territorySet ?sv White))"
    and d: "distinct visited"
    and v: "set visited = {p. onBoard board p \<and> cellAt ?sv p = Null}"
    unfolding len obs by blast
  let ?r = "scoreOf (card (territorySet ?sv Black)) (card (territorySet ?sv White))
              (length (filter (\<lambda>p. cellAt board p = Stone Black) ds))
              (length (filter (\<lambda>p. cellAt board p = Stone White) ds)) caps k"
  have c: "calculateFinalScore board ds caps k = Inr ?r"
    unfolding calculateFinalScore_rows[OF rows] s by simp
  have t: "territory (black ?r) = of_nat (card (territorySet ?sv Black))"
    "territory (white ?r) = of_nat (card (territorySet ?sv White))"
    by (simp_all add: scoreOf_def)
  have p1: "{p. onBoard board p \<and> cellAt ?sv p = Null}
            = territorySet ?sv Black \<union> territorySet ?sv White \<union> neutralSet ?sv"
    using territory_partition(1)[of ?sv] unfolding obs .
  have w: "\<forall>c. \<forall>p \<in> territorySet ?sv c. regionSet ?sv p \<subseteq> territorySet ?sv c"
    using territory_whole_regions by blast
  show ?thesis
    apply (rule exI[of _ ?r])
    apply (rule exI[of _ visited])
    apply (rule exI[of _ "card (territorySet ?sv Black)"])
    apply (rule exI[of _ "card (territorySet ?sv White)"])
    apply (intro conjI c view s d v t refl p1 territory_partition(2,3,4) w)
    done
qed

theorem calculateFinalScore_territory_witness:
  "squareBoard scoringBoard \<and> noHoles scoringBoard \<and> onBoard scoringBoard (1, 1)
   \<and> calculateFinalScore scoringBoard [(1, 1)] (\<lambda>_. 0) KOMI =
       Inr \<lparr>black = \<lparr>territory = 1, captures = 0, total = 1\<rparr>,
            white = \<lparr>territory = 1, captures = 1, total = 17 / 2, komi = 13 / 2\<rparr>,
            winner = Wins White\<rparr>
   \<and> card (territorySet (scoreView scoringBoard [(1, 1)]) Black) = 1
   \<and> card (territorySet (scoreView scoringBoard [(1, 1)]) White) = 1
   \<and> length (fst (scanBoard 3 (scoreView scoringBoard [(1, 1)]))) = 5"
proof -
  have sq: "squareBoard scoringBoard" by (simp add: squareBoard_def scoringBoard_def)
  have nh: "noHoles scoringBoard"
    by (rule noHoles_rows[OF sq]) (simp add: scoringBoard_def)
  have ob: "onBoard scoringBoard (1, 1)" by (simp add: onBoard_def scoringBoard_def)
  then have obs: "\<forall>p \<in> set [(1, 1)]. onBoard scoringBoard p" by simp
  have len: "length scoringBoard = 3" by (simp add: scoringBoard_def)
  have e: "calculateFinalScore scoringBoard [(1, 1)] (\<lambda>_. 0) KOMI =
       Inr \<lparr>black = \<lparr>territory = 1, captures = 0, total = 1\<rparr>,
            white = \<lparr>territory = 1, captures = 1, total = 17 / 2, komi = 13 / 2\<rparr>,
            winner = Wins White\<rparr>"
    by code_simp
  have sc: "scanBoard 3 (scoreView scoringBoard [(1, 1)])
              = ([(0, 0), (2, 0), (1, 1), (0, 2), (2, 2)], 1, 1)"
    by code_simp
  from calculateFinalScore_territory[OF sq nh obs, of "\<lambda>_. 0" "13 / 2"]
  have "card (territorySet (scoreView scoringBoard [(1, 1)]) Black) = 1
      \<and> card (territorySet (scoreView scoringBoard [(1, 1)]) White) = 1"
    unfolding len sc by auto
  with sq nh ob e sc show ?thesis by simp
qed

end
